theory Spec2Isabelle
  imports Main "HOL-Library.Word" "HOL-Library.Sublist"
begin

section \<open>Bible Viewer: constants and bytes\<close>

text \<open>
  The verse files, the bookmark file and the settings file are byte streams; a byte is a
  \<open>char\<close> and a file's content a \<open>string\<close>. The buffers of the program are C strings:
  what \<open>strlen\<close>, \<open>strchr\<close> and \<open>atoi\<close> see of a buffer ends at its first NUL byte.
\<close>

definition MAX_SEARCH_RESULTS :: nat where "MAX_SEARCH_RESULTS = 50"
definition MAX_BOOKMARKS :: nat where "MAX_BOOKMARKS = 75"
definition MAX_VERSES :: nat where "MAX_VERSES = 600"
definition WRAP_MAX_LINES :: nat where "WRAP_MAX_LINES = 8"
definition WRAP_LINE_LEN :: nat where "WRAP_LINE_LEN = 32"
definition REF_LEN :: nat where "REF_LEN = 24"
definition LINE_BUF_LEN :: nat where "LINE_BUF_LEN = 320"

abbreviation NUL :: char where "NUL \<equiv> CHR 0x00"
abbreviation LF :: char where "LF \<equiv> CHR 0x0A"
abbreviation CR :: char where "CR \<equiv> CHR 0x0D"

text \<open>The C string held in a buffer: the bytes before the first NUL.\<close>

definition cstr :: "string \<Rightarrow> string" where
  "cstr buf = takeWhile (\<lambda>c. c \<noteq> NUL) buf"

text \<open>\<open>strchr(s, c)\<close> for \<open>c \<noteq> NUL\<close>: the index of the first \<open>c\<close> in the C string, if any.\<close>

definition strchr :: "string \<Rightarrow> char \<Rightarrow> nat option" where
  "strchr buf c =
     (if c \<in> set (cstr buf) then Some (length (takeWhile (\<lambda>x. x \<noteq> c) (cstr buf))) else None)"

section \<open>Verse index\<close>

record VerseIndex =
  offset :: "32 word"
  ref :: string

text \<open>
  The open verse file: its content and the position of the next byte to read.
  \<open>storage_file_read\<close> of one byte returns 0 at the end of the content.
\<close>

record File =
  content :: string
  position :: nat

text \<open>
  The inner loop of \<open>build_index\<close>: \<open>line\<close> is the buffer filled so far (\<open>li\<close> is its
  length), \<open>fs\<close> the bytes not yet read, \<open>off\<close> the 32-bit byte counter. The result is
  the buffer, the \<open>eof\<close> flag, the bytes left and the counter.
\<close>

fun index_read_line :: "string \<Rightarrow> string \<Rightarrow> 32 word \<Rightarrow> string \<times> bool \<times> string \<times> 32 word" where
  "index_read_line line [] off =
     (if length line < LINE_BUF_LEN - 1 then (line, True, [], off) else (line, False, [], off))"
| "index_read_line line (ch # fs) off =
     (if length line < LINE_BUF_LEN - 1 then
        (if ch = CR then index_read_line line fs (off + 1)
         else if ch = LF then (line, False, fs, off + 1)
         else index_read_line (line @ [ch]) fs (off + 1))
      else (line, False, ch # fs, off))"

lemma index_read_line_length:
  "index_read_line line fs off = (l, e, fs', off') \<Longrightarrow> length fs' \<le> length fs"
  by (induction line fs off rule: index_read_line.induct) (auto split: if_splits)

lemma index_read_line_progress:
  "index_read_line line fs off = (l, e, fs', off') \<Longrightarrow> length line < LINE_BUF_LEN - 1 \<Longrightarrow>
   \<not> (l = line \<and> e) \<Longrightarrow> length fs' < length fs"
proof (induction line fs off rule: index_read_line.induct)
  case (1 line off)
  then show ?case by (auto split: if_splits)
next
  case (2 line ch fs off)
  show ?case
  proof (cases "ch = CR")
    case True
    with 2 show ?thesis by (auto split: if_splits)
  next
    case False
    note nocr = False
    show ?thesis
    proof (cases "ch = LF")
      case True
      with 2 nocr show ?thesis by (auto split: if_splits)
    next
      case False
      with 2 nocr have "index_read_line (line @ [ch]) fs (off + 1) = (l, e, fs', off')"
        by simp
      from index_read_line_length [OF this] show ?thesis by simp
    qed
  qed
qed

lemma index_read_line_start_progress:
  "(l, e, fs', off') = index_read_line [] fs off \<Longrightarrow> l \<noteq> [] \<or> \<not> e \<Longrightarrow> length fs' < length fs"
  using index_read_line_progress [of "[]" fs off l e fs' off'] by (auto simp: LINE_BUF_LEN_def)

text \<open>
  The outer loop of \<open>build_index\<close>. The index array and \<open>verse_count\<close> are the list
  \<open>idx\<close> and its length. The result is the index and the bytes left unread.
\<close>

function build_index_loop :: "string \<Rightarrow> 32 word \<Rightarrow> VerseIndex list \<Rightarrow> VerseIndex list \<times> string" where
  "build_index_loop fs off idx =
     (if length idx < MAX_VERSES then
        (let line_start = off in
         case index_read_line [] fs off of (line, eof, fs', off') \<Rightarrow>
           if line = [] \<and> eof then (idx, fs')
           else if line = [] then build_index_loop fs' off' idx
           else (case strchr line (CHR ''|'') of
                   None \<Rightarrow> if eof then (idx, fs') else build_index_loop fs' off' idx
                 | Some p \<Rightarrow>
                     let rlen = (if p \<ge> REF_LEN then REF_LEN - 1 else p);
                         vi = \<lparr>offset = line_start, ref = take rlen line\<rparr>;
                         idx' = idx @ [vi]
                     in if eof then (idx', fs') else build_index_loop fs' off' idx'))
      else (idx, fs))"
  by pat_completeness auto
termination
proof (relation "measure (\<lambda>(fs, off, idx). length fs)")
qed (auto dest: index_read_line_start_progress)

declare build_index_loop.simps [simp del]

record VerseFile =
  label :: string
  path :: string

text \<open>
  The part of the application state (\<open>App\<close>) that the verified operations read and write.
  An array with its count is the list of its first \<open>count\<close> entries: \<open>index\<close> with
  \<open>verse_count\<close>, \<open>hits.idx\<close> with \<open>hits.count\<close>, \<open>bmarks.idx\<close> with \<open>bmarks.count\<close>,
  \<open>vfiles\<close> with \<open>vfile_count\<close>. The counters and verse ids are natural numbers: every
  increment in the source is guarded by a bound below the width of the counter, and the
  one narrowing cast (\<open>bmarks_load\<close>) is written out. The storage service appears as the
  content of the two persisted files (\<open>None\<close>: no such file) and a flag saying whether a
  file can be opened for writing.
\<close>

record App =
  vfile :: "File option"
  index :: "VerseIndex list"
  vfiles :: "VerseFile list"
  vfile_sel :: nat
  search_buf :: string
  search_len :: nat
  hits :: "nat list"
  hits_sel :: nat
  bmarks :: "nat list"
  font_choice :: nat
  daily_verse_idx :: nat
  daily_verse_day :: nat
  api_trans_sel :: nat
  api_menu_sel :: nat
  api_book_sel :: nat
  api_chapter_sel :: nat
  api_verse_sel :: nat
  bookmarks_txt :: "string option"
  settings_txt :: "string option"
  storage_writable :: bool

abbreviation verse_count :: "App \<Rightarrow> nat" where
  "verse_count app \<equiv> length (index app)"

text \<open>
  \<open>build_index\<close>: resets \<open>verse_count\<close>, fails without an open file, otherwise seeks to
  0 and runs the loop; returns \<open>verse_count > 0\<close>.
\<close>

definition build_index :: "App \<Rightarrow> bool \<times> App" where
  "build_index app =
     (case vfile app of
        None \<Rightarrow> (False, app\<lparr>index := []\<rparr>)
      | Some f \<Rightarrow>
          (case build_index_loop (content f) 0 [] of
             (idx, rest) \<Rightarrow>
               (idx \<noteq> [],
                app\<lparr>index := idx,
                    vfile := Some (f\<lparr>position := length (content f) - length rest\<rparr>)\<rparr>)))"

text \<open>The state after \<open>memset(app, 0, sizeof(App))\<close>, with nothing on the card.\<close>

definition app0 :: App where
  "app0 = \<lparr>vfile = None, index = [], vfiles = [], vfile_sel = 0, search_buf = [],
     search_len = 0, hits = [], hits_sel = 0, bmarks = [], font_choice = 0,
     daily_verse_idx = 0, daily_verse_day = 0, api_trans_sel = 0, api_menu_sel = 0,
     api_book_sel = 0, api_chapter_sel = 0, api_verse_sel = 0,
     bookmarks_txt = None, settings_txt = None, storage_writable = True\<rparr>"

definition with_file :: "string \<Rightarrow> App" where
  "with_file bytes = app0\<lparr>vfile := Some \<lparr>content = bytes, position = 0\<rparr>\<rparr>"

section \<open>Search\<close>

text \<open>ASCII case folding as \<open>icontains\<close> does it: \<open>if(a >= 'A' && a <= 'Z') a += 32\<close>.\<close>

definition lower :: "char \<Rightarrow> char" where
  "lower a =
     (if (of_char (CHR ''A'') :: nat) \<le> of_char a \<and> (of_char a :: nat) \<le> of_char (CHR ''Z'')
      then char_of (of_char a + 32 :: nat) else a)"

text \<open>The inner loop of \<open>icontains\<close> over \<open>j\<close>: \<open>True\<close> is \<open>ok\<close> at its end.\<close>

function icontains_inner :: "string \<Rightarrow> string \<Rightarrow> nat \<Rightarrow> nat \<Rightarrow> bool" where
  "icontains_inner hay needle i j =
     (if j < length needle then
        (if lower (hay ! (i + j)) \<noteq> lower (needle ! j) then False
         else icontains_inner hay needle i (j + 1))
      else True)"
  by pat_completeness auto
termination
  by (relation "measure (\<lambda>(hay, needle, i, j). length needle - j)") auto

declare icontains_inner.simps [simp del]

text \<open>The outer loop over \<open>i\<close>, entered with \<open>nlen \<le> hlen\<close>.\<close>

function icontains_outer :: "string \<Rightarrow> string \<Rightarrow> nat \<Rightarrow> bool" where
  "icontains_outer hay needle i =
     (if i \<le> length hay - length needle then
        (if icontains_inner hay needle i 0 then True else icontains_outer hay needle (i + 1))
      else False)"
  by pat_completeness auto
termination
  by (relation "measure (\<lambda>(hay, needle, i). Suc (length hay - length needle) - i)") auto

declare icontains_outer.simps [simp del]

definition icontains :: "string \<Rightarrow> string \<Rightarrow> bool" where
  "icontains hay needle =
     (if cstr needle = [] then False
      else if length (cstr needle) > length (cstr hay) then False
      else icontains_outer (cstr hay) (cstr needle) 0)"

text \<open>
  \<open>read_line\<close>: \<open>line\<close> is the buffer filled so far, \<open>fs\<close> the bytes not yet read; the
  result is the buffer (the return value is its length) and the bytes left.
\<close>

fun read_line :: "nat \<Rightarrow> string \<Rightarrow> string \<Rightarrow> string \<times> string" where
  "read_line buf_sz line [] = (line, [])"
| "read_line buf_sz line (ch # fs) =
     (if length line < buf_sz - 1 then
        (if ch = CR then read_line buf_sz line fs
         else if ch = LF then (line, fs)
         else read_line buf_sz (line @ [ch]) fs)
      else (line, ch # fs))"

lemma read_line_length:
  "read_line buf_sz line fs = (l, fs') \<Longrightarrow> length fs' \<le> length fs"
  by (induction buf_sz line fs rule: read_line.induct) (auto split: if_splits)

lemma read_line_grows:
  "read_line buf_sz line fs = (l, fs') \<Longrightarrow>
   length l + length fs' \<le> length line + length fs \<and> length line \<le> length l"
  by (induction buf_sz line fs rule: read_line.induct) (auto split: if_splits)

lemma read_line_start_progress:
  "(l, fs') = read_line buf_sz [] fs \<Longrightarrow> l \<noteq> [] \<Longrightarrow> length fs' < length fs"
  using read_line_grows [of buf_sz "[]" fs l fs'] by (cases l) auto

lemma read_line_start_length:
  "(l, fs') = read_line buf_sz [] fs \<Longrightarrow> length fs' \<le> length fs"
  using read_line_length [of buf_sz "[]" fs l fs'] by simp

text \<open>
  The loop of \<open>do_search\<close>: \<open>vcount\<close> is \<open>verse_count\<close>, \<open>hs\<close> the hits so far. After an
  empty \<open>read_line\<close> the source reads one more byte to tell a blank line from the end of
  the file; that byte is consumed.
\<close>

function do_search_loop :: "nat \<Rightarrow> string \<Rightarrow> string \<Rightarrow> nat \<Rightarrow> nat list \<Rightarrow> nat list \<times> string" where
  "do_search_loop vcount needle fs verse_num hs =
     (if verse_num < vcount \<and> length hs < MAX_SEARCH_RESULTS then
        (case read_line LINE_BUF_LEN [] fs of (line, fs') \<Rightarrow>
           if line = [] then
             (case fs' of
                [] \<Rightarrow> (hs, [])
              | ch # fs'' \<Rightarrow> do_search_loop vcount needle fs'' verse_num hs)
           else do_search_loop vcount needle fs' (verse_num + 1)
                  (if icontains line needle then hs @ [verse_num] else hs))
      else (hs, fs))"
  by pat_completeness auto
termination
proof (relation "measure (\<lambda>(vcount, needle, fs, verse_num, hs). length fs)")
qed (auto dest: read_line_start_progress read_line_start_length)

declare do_search_loop.simps [simp del]

definition do_search :: "App \<Rightarrow> App" where
  "do_search app =
     (let app1 = app\<lparr>hits := [], hits_sel := 0\<rparr> in
      if search_len app = 0 then app1
      else case vfile app of
             None \<Rightarrow> app1
           | Some f \<Rightarrow>
               (case do_search_loop (verse_count app) (search_buf app) (content f) 0 [] of
                  (hs, rest) \<Rightarrow>
                    app1\<lparr>hits := hs,
                         vfile := Some (f\<lparr>position := length (content f) - length rest\<rparr>)\<rparr>))"

text \<open>
  The lines that the search pass counts, in order: the non-empty buffers that successive
  \<open>read_line\<close> calls return, the loop of \<open>do_search\<close> without its two bounds. The line
  at position \<open>k\<close> is the one on which \<open>verse_num = k\<close>.
\<close>

function search_lines :: "string \<Rightarrow> string list" where
  "search_lines fs =
     (case read_line LINE_BUF_LEN [] fs of (line, fs') \<Rightarrow>
        if line = [] then (case fs' of [] \<Rightarrow> [] | ch # fs'' \<Rightarrow> search_lines fs'')
        else line # search_lines fs')"
  by pat_completeness auto
termination
proof (relation "measure length")
qed (auto dest: read_line_start_progress read_line_start_length)

declare search_lines.simps [simp del]

text \<open>
  The lines that the index pass turns into entries, in order: the buffers of
  \<open>build_index\<close> that hold a \<open>|\<close>, the loop of \<open>build_index\<close> without its bound.
\<close>

function index_lines :: "string \<Rightarrow> string list" where
  "index_lines fs =
     (case index_read_line [] fs 0 of (line, eof, fs', off') \<Rightarrow>
        if line = [] \<and> eof then []
        else if line = [] then index_lines fs'
        else (case strchr line (CHR ''|'') of
                None \<Rightarrow> if eof then [] else index_lines fs'
              | Some p \<Rightarrow> if eof then [line] else line # index_lines fs'))"
  by pat_completeness auto
termination
proof (relation "measure length")
qed (auto dest: index_read_line_start_progress)

declare index_lines.simps [simp del]

section \<open>Word wrap\<close>

record WrapState =
  lines :: "string list"
  scroll :: nat

text \<open>The backward scan \<open>while(brk > 0 && text[pos + brk] != ' ') brk--\<close>.\<close>

fun find_brk :: "string \<Rightarrow> nat \<Rightarrow> nat \<Rightarrow> nat" where
  "find_brk text pos 0 = 0"
| "find_brk text pos (Suc b) =
     (if text ! (pos + Suc b) \<noteq> CHR '' '' then find_brk text pos b else Suc b)"

text \<open>
  The loop of \<open>word_wrap\<close>; \<open>ls\<close> are the lines emitted so far (\<open>w->count\<close> is their
  number). The scan reads \<open>text[pos + brk]\<close> only where \<open>pos + brk < len\<close>.
\<close>

function word_wrap_loop :: "string \<Rightarrow> nat \<Rightarrow> nat \<Rightarrow> string list \<Rightarrow> string list" where
  "word_wrap_loop text cols pos ls =
     (if pos < length text \<and> length ls < WRAP_MAX_LINES then
        (let rem = length text - pos in
         if rem \<le> cols then ls @ [take rem (drop pos text)]
         else
           (let brk0 = find_brk text pos cols;
                brk = (if brk0 = 0 then cols else brk0);
                ls' = ls @ [take brk (drop pos text)];
                pos' = pos + brk;
                pos'' = (if pos' < length text \<and> text ! pos' = CHR '' '' then pos' + 1 else pos')
            in word_wrap_loop text cols pos'' ls'))
      else ls)"
  by pat_completeness auto
termination
  by (relation "measure (\<lambda>(text, cols, pos, ls). WRAP_MAX_LINES - length ls)") auto

declare word_wrap_loop.simps [simp del]

definition word_wrap :: "string \<Rightarrow> nat \<Rightarrow> WrapState" where
  "word_wrap text cols =
     (let cols1 = (if cols < 1 then 1 else cols);
          cols2 = (if cols1 > WRAP_LINE_LEN then WRAP_LINE_LEN else cols1)
      in \<lparr>lines = word_wrap_loop (cstr text) cols2 0 [], scroll = 0\<rparr>)"

text \<open>
  Rejoining wrapped lines into one text. The source has no such operation; this is the
  one the idempotence property speaks of, the lines separated by single spaces.
\<close>

fun rejoin :: "string list \<Rightarrow> string" where
  "rejoin [] = []"
| "rejoin [l] = l"
| "rejoin (l # ls) = l @ CHR '' '' # rejoin ls"

section \<open>Numbers as text\<close>

definition isdigit :: "char \<Rightarrow> bool" where
  "isdigit c = ((of_char (CHR ''0'') :: nat) \<le> of_char c \<and> (of_char c :: nat) \<le> of_char (CHR ''9''))"

definition isspace :: "char \<Rightarrow> bool" where
  "isspace c = (c = CHR '' '' \<or> ((9 :: nat) \<le> of_char c \<and> (of_char c :: nat) \<le> 13))"

text \<open>The value of the leading decimal digits of \<open>s\<close>, continuing from \<open>acc\<close>.\<close>

fun digits_val :: "nat \<Rightarrow> string \<Rightarrow> nat" where
  "digits_val acc [] = acc"
| "digits_val acc (c # cs) =
     (if isdigit c then digits_val (acc * 10 + (of_char c - of_char (CHR ''0''))) cs else acc)"

text \<open>
  \<open>atoi\<close> of the C library of the target (newlib, 32-bit \<open>int\<close> and \<open>long\<close>): white space,
  an optional sign, decimal digits; no digits give 0; the value saturates at the bounds
  of \<open>int\<close>, as \<open>strtol\<close> does there.
\<close>

definition atoi :: "string \<Rightarrow> int" where
  "atoi buf =
     (case dropWhile isspace (cstr buf) of
        [] \<Rightarrow> 0
      | c # cs \<Rightarrow>
          if c = CHR ''-'' then max (- (2 ^ 31)) (- int (digits_val 0 cs))
          else if c = CHR ''+'' then min (2 ^ 31 - 1) (int (digits_val 0 cs))
          else min (2 ^ 31 - 1) (int (digits_val 0 (c # cs))))"

text \<open>
  \<open>strtoul(s, NULL, 10)\<close> with a 32-bit \<open>unsigned long\<close>: a value that does not fit gives
  \<open>ULONG_MAX\<close>, a minus sign negates within the type.
\<close>

definition strtoul :: "string \<Rightarrow> nat" where
  "strtoul buf =
     (case dropWhile isspace (cstr buf) of
        [] \<Rightarrow> 0
      | c # cs \<Rightarrow>
          (let neg = (c = CHR ''-'');
               v = digits_val 0 (if c = CHR ''-'' \<or> c = CHR ''+'' then cs else c # cs)
           in if v > 2 ^ 32 - 1 then 2 ^ 32 - 1
              else if neg then (2 ^ 32 - v) mod 2 ^ 32 else v))"

text \<open>\<open>%u\<close> and, for a value that is not negative, \<open>%d\<close>: the decimal digits.\<close>

fun show_dec :: "nat \<Rightarrow> string" where
  "show_dec n =
     (if n < 10 then [char_of (of_char (CHR ''0'') + n)]
      else show_dec (n div 10) @ [char_of (of_char (CHR ''0'') + n mod 10)])"

declare show_dec.simps [simp del]

text \<open>The index of the first element that satisfies \<open>P\<close>: a search loop with \<open>break\<close>.\<close>

primrec find_first :: "('a \<Rightarrow> bool) \<Rightarrow> 'a list \<Rightarrow> nat option" where
  "find_first P [] = None"
| "find_first P (x # xs) = (if P x then Some 0 else map_option Suc (find_first P xs))"

section \<open>Bookmarks\<close>

text \<open>
  \<open>bmarks_save\<close> rewrites the whole file, one \<open>%u\<close> line per bookmark, unless the file
  cannot be opened. A 16-bit id has at most five digits, so each line fits \<open>buf[8]\<close>.
\<close>

definition bmarks_save :: "App \<Rightarrow> App" where
  "bmarks_save app =
     (if \<not> storage_writable app then app
      else app\<lparr>bookmarks_txt := Some (concat (map (\<lambda>v. show_dec v @ [LF]) (bmarks app)))\<rparr>)"

text \<open>\<open>(uint16_t)atoi(buf)\<close> followed by the test against \<open>verse_count\<close>.\<close>

definition bmarks_add_parsed :: "nat \<Rightarrow> string \<Rightarrow> nat list \<Rightarrow> nat list" where
  "bmarks_add_parsed vcount buf bm =
     (let v = nat (atoi buf mod 65536) in if v < vcount then bm @ [v] else bm)"

text \<open>The loop of \<open>bmarks_load\<close>: \<open>buf\<close> holds the \<open>bi\<close> bytes of the current line.\<close>

fun bmarks_load_loop :: "nat \<Rightarrow> string \<Rightarrow> string \<Rightarrow> nat list \<Rightarrow> nat list" where
  "bmarks_load_loop vcount [] buf bm =
     (if length bm < MAX_BOOKMARKS then
        (if buf \<noteq> [] then bmarks_add_parsed vcount buf bm else bm)
      else bm)"
| "bmarks_load_loop vcount (ch # fs) buf bm =
     (if length bm < MAX_BOOKMARKS then
        (if ch = LF \<or> ch = CR then
           (if buf \<noteq> [] then bmarks_load_loop vcount fs [] (bmarks_add_parsed vcount buf bm)
            else bmarks_load_loop vcount fs buf bm)
         else if length buf < 7 then bmarks_load_loop vcount fs (buf @ [ch]) bm
         else bmarks_load_loop vcount fs buf bm)
      else bm)"

definition bmarks_load :: "App \<Rightarrow> App" where
  "bmarks_load app =
     (case bookmarks_txt app of
        None \<Rightarrow> app\<lparr>bmarks := []\<rparr>
      | Some fs \<Rightarrow> app\<lparr>bmarks := bmarks_load_loop (verse_count app) fs [] []\<rparr>)"

definition is_bookmarked :: "App \<Rightarrow> nat \<Rightarrow> bool" where
  "is_bookmarked app vi = (find_first (\<lambda>x. x = vi) (bmarks app) \<noteq> None)"

text \<open>
  \<open>toggle_bmark\<close>: the first entry equal to \<open>vi\<close> is removed by shifting the rest down;
  without one, \<open>vi\<close> is appended if there is room.
\<close>

definition toggle_bmark :: "App \<Rightarrow> nat \<Rightarrow> App" where
  "toggle_bmark app vi =
     (case find_first (\<lambda>x. x = vi) (bmarks app) of
        Some i \<Rightarrow> bmarks_save (app\<lparr>bmarks := take i (bmarks app) @ drop (Suc i) (bmarks app)\<rparr>)
      | None \<Rightarrow>
          if length (bmarks app) < MAX_BOOKMARKS
          then bmarks_save (app\<lparr>bmarks := bmarks app @ [vi]\<rparr>)
          else app)"

section \<open>Book, chapter and verse tables\<close>

definition BIBLE_BOOKS_COUNT :: nat where "BIBLE_BOOKS_COUNT = 66"
definition FONT_COUNT :: nat where "FONT_COUNT = 5"
definition API_TRANS_COUNT :: nat where "API_TRANS_COUNT = 9"

text \<open>\<open>API_TRANSLATIONS\<close>: code and label.\<close>

definition API_TRANSLATIONS :: "(string \<times> string) list" where
  "API_TRANSLATIONS =
    [(''web'', ''World English''), (''kjv'', ''King James''), (''asv'', ''American Std''),
     (''bbe'', ''Basic English''), (''darby'', ''Darby Bible''), (''dra'', ''Douay-Rheims''),
     (''ylt'', ''Young's Literal''), (''webbe'', ''WEB British''),
     (''oeb-us'', ''Open English US'')]"

text \<open>\<open>BIBLE_BOOKS\<close>: name and number of chapters.\<close>

definition BIBLE_BOOKS :: "(string \<times> nat) list" where
  "BIBLE_BOOKS =
    [(''Genesis'', 50), (''Exodus'', 40), (''Leviticus'', 27),
     (''Numbers'', 36), (''Deuteronomy'', 34), (''Joshua'', 24),
     (''Judges'', 21), (''Ruth'', 4), (''1 Samuel'', 31),
     (''2 Samuel'', 24), (''1 Kings'', 22), (''2 Kings'', 25),
     (''1 Chronicles'', 29), (''2 Chronicles'', 36), (''Ezra'', 10),
     (''Nehemiah'', 13), (''Esther'', 10), (''Job'', 42),
     (''Psalms'', 150), (''Proverbs'', 31), (''Ecclesiastes'', 12),
     (''Song of Solomon'', 8), (''Isaiah'', 66), (''Jeremiah'', 52),
     (''Lamentations'', 5), (''Ezekiel'', 48), (''Daniel'', 12),
     (''Hosea'', 14), (''Joel'', 3), (''Amos'', 9),
     (''Obadiah'', 1), (''Jonah'', 4), (''Micah'', 7),
     (''Nahum'', 3), (''Habakkuk'', 3), (''Zephaniah'', 3),
     (''Haggai'', 2), (''Zechariah'', 14), (''Malachi'', 4),
     (''Matthew'', 28), (''Mark'', 16), (''Luke'', 24),
     (''John'', 21), (''Acts'', 28), (''Romans'', 16),
     (''1 Corinthians'', 16), (''2 Corinthians'', 13), (''Galatians'', 6),
     (''Ephesians'', 6), (''Philippians'', 4), (''Colossians'', 4),
     (''1 Thessalonians'', 5), (''2 Thessalonians'', 3), (''1 Timothy'', 6),
     (''2 Timothy'', 4), (''Titus'', 3), (''Philemon'', 1),
     (''Hebrews'', 13), (''James'', 5), (''1 Peter'', 5),
     (''2 Peter'', 3), (''1 John'', 5), (''2 John'', 1),
     (''3 John'', 1), (''Jude'', 1), (''Revelation'', 22)]"

definition VERSE_COUNTS :: "nat list" where
  "VERSE_COUNTS =
    [31, 25, 24, 26, 32, 22, 24, 22, 29, 32, 32, 20, 18, 24, 21, 16, 27, 33, 38, 18,
     34, 24, 20, 67, 34, 35, 46, 22, 35, 43, 55, 32, 20, 31, 29, 43, 36, 30, 23, 23,
     57, 38, 34, 34, 28, 34, 31, 22, 33, 26, 22, 25, 22, 31, 23, 30, 25, 32, 35, 29,
     10, 51, 22, 31, 27, 36, 16, 27, 25, 26, 36, 31, 33, 18, 40, 37, 21, 43, 46, 38,
     18, 35, 23, 35, 35, 38, 29, 31, 43, 38, 17, 16, 17, 35, 19, 30, 38, 36, 24, 20,
     47, 8, 59, 57, 33, 34, 16, 30, 24, 16, 15, 49, 52, 45, 23, 26, 20, 54, 34, 51,
     49, 31, 27, 89, 26, 23, 36, 35, 16, 33, 45, 41, 50, 13, 32, 22, 29, 35, 41, 30,
     25, 18, 65, 23, 31, 40, 16, 54, 42, 56, 29, 34, 13, 46, 37, 29, 49, 33, 25, 26,
     20, 29, 22, 32, 32, 18, 29, 23, 22, 20, 22, 21, 20, 23, 30, 25, 22, 19, 19, 26,
     68, 29, 20, 30, 52, 29, 12, 18, 24, 17, 24, 15, 27, 26, 35, 27, 43, 23, 24, 33,
     15, 63, 10, 18, 28, 51, 9, 45, 34, 16, 33, 36, 23, 31, 24, 31, 40, 25, 35, 57,
     18, 40, 15, 25, 20, 20, 31, 13, 31, 30, 48, 25, 22, 23, 18, 22, 28, 36, 21, 22,
     12, 21, 17, 22, 27, 27, 15, 25, 23, 52, 35, 23, 58, 30, 24, 42, 15, 23, 29, 22,
     44, 25, 12, 25, 11, 31, 13, 27, 32, 39, 12, 25, 23, 29, 18, 13, 19, 27, 31, 39,
     33, 37, 23, 29, 33, 43, 26, 22, 51, 39, 25, 53, 46, 28, 34, 18, 38, 51, 66, 28,
     29, 43, 33, 34, 31, 34, 34, 24, 46, 21, 43, 29, 53, 18, 25, 27, 44, 27, 33, 20,
     29, 37, 36, 21, 21, 25, 29, 38, 20, 41, 37, 37, 21, 26, 20, 37, 20, 30, 54, 55,
     24, 43, 26, 81, 40, 40, 44, 14, 47, 40, 14, 17, 29, 43, 27, 17, 19, 8, 30, 19,
     32, 31, 31, 32, 34, 21, 30, 17, 18, 17, 22, 14, 42, 22, 18, 31, 19, 23, 16, 22,
     15, 19, 14, 19, 34, 11, 37, 20, 12, 21, 27, 28, 23, 9, 27, 36, 27, 21, 33, 25,
     33, 27, 23, 11, 70, 13, 24, 17, 22, 28, 36, 15, 44, 11, 20, 32, 23, 19, 19, 73,
     18, 38, 39, 36, 47, 31, 22, 23, 15, 17, 14, 14, 10, 17, 32, 3, 22, 13, 26, 21,
     27, 30, 21, 22, 35, 22, 20, 25, 28, 22, 35, 22, 16, 21, 29, 29, 34, 30, 17, 25,
     6, 14, 23, 28, 25, 31, 40, 22, 33, 37, 16, 33, 24, 41, 30, 24, 34, 17, 6, 12,
     8, 8, 12, 10, 17, 9, 20, 18, 7, 8, 6, 7, 5, 11, 15, 50, 14, 9, 13, 31,
     6, 10, 22, 12, 14, 9, 11, 12, 24, 11, 22, 22, 28, 12, 40, 22, 13, 17, 13, 11,
     5, 20, 28, 22, 35, 22, 46, 18, 16, 18, 12, 5, 12, 20, 12, 23, 11, 13, 12, 9,
     9, 5, 8, 28, 22, 35, 45, 48, 43, 13, 31, 7, 10, 10, 9, 8, 18, 19, 2, 29,
     18, 7, 8, 9, 4, 8, 5, 6, 5, 6, 8, 8, 3, 18, 3, 3, 21, 26, 9, 8,
     24, 13, 10, 7, 12, 15, 21, 10, 20, 14, 9, 6, 7, 23, 11, 13, 176, 9, 8, 9,
     4, 8, 5, 6, 5, 3, 8, 8, 3, 18, 3, 3, 21, 26, 9, 8, 24, 13, 10, 7,
     12, 15, 21, 10, 20, 14, 9, 6, 33, 22, 35, 27, 23, 35, 27, 36, 18, 32, 31, 28,
     25, 35, 33, 33, 28, 24, 29, 30, 31, 29, 35, 34, 28, 28, 27, 28, 27, 33, 31, 18,
     26, 22, 16, 20, 12, 29, 17, 18, 20, 10, 14, 17, 17, 11, 16, 16, 13, 13, 14, 31,
     22, 26, 6, 30, 13, 25, 22, 21, 34, 16, 6, 22, 32, 9, 14, 14, 7, 25, 6, 17,
     25, 18, 23, 12, 21, 13, 29, 24, 33, 9, 20, 24, 17, 10, 22, 38, 22, 8, 31, 29,
     25, 28, 28, 25, 13, 15, 22, 26, 11, 23, 15, 12, 17, 13, 12, 21, 14, 21, 22, 11,
     12, 19, 12, 25, 24, 19, 37, 25, 31, 31, 30, 34, 22, 26, 25, 23, 17, 27, 22, 21,
     21, 27, 23, 15, 18, 14, 30, 40, 10, 38, 24, 22, 17, 32, 24, 40, 44, 26, 22, 19,
     32, 21, 28, 18, 16, 18, 22, 13, 30, 5, 28, 7, 47, 39, 46, 64, 34, 22, 22, 66,
     22, 22, 28, 10, 27, 17, 17, 14, 27, 18, 11, 22, 25, 28, 23, 23, 8, 63, 24, 32,
     14, 49, 32, 31, 49, 27, 17, 21, 36, 26, 21, 26, 18, 32, 33, 31, 15, 38, 28, 23,
     29, 49, 26, 20, 27, 31, 25, 24, 23, 35, 21, 49, 30, 37, 31, 28, 28, 27, 27, 21,
     45, 13, 11, 23, 5, 19, 15, 11, 16, 14, 17, 15, 12, 14, 16, 9, 20, 32, 21, 15,
     16, 15, 13, 27, 14, 17, 14, 15, 21, 17, 10, 10, 11, 16, 13, 12, 13, 15, 16, 20,
     15, 13, 19, 17, 20, 19, 18, 15, 20, 15, 23, 21, 13, 10, 14, 11, 15, 14, 23, 17,
     12, 17, 14, 9, 21, 14, 17, 18, 6, 25, 23, 17, 25, 48, 34, 29, 34, 38, 42, 30,
     50, 58, 36, 39, 28, 27, 35, 30, 34, 46, 46, 39, 51, 46, 75, 66, 20, 45, 28, 35,
     41, 43, 56, 37, 38, 50, 52, 33, 44, 37, 72, 47, 20, 80, 52, 38, 44, 39, 49, 50,
     56, 62, 42, 54, 59, 35, 35, 32, 31, 37, 43, 48, 47, 38, 71, 56, 53, 51, 25, 36,
     54, 47, 71, 53, 59, 41, 42, 57, 50, 38, 31, 27, 33, 26, 40, 42, 31, 25, 26, 47,
     26, 37, 42, 15, 60, 40, 43, 48, 30, 25, 52, 28, 41, 40, 34, 28, 41, 38, 40, 30,
     35, 27, 27, 32, 44, 31, 32, 29, 31, 25, 21, 23, 25, 39, 33, 21, 36, 21, 14, 26,
     33, 24, 31, 16, 23, 21, 13, 20, 40, 13, 27, 33, 34, 31, 13, 40, 58, 24, 24, 17,
     18, 18, 21, 18, 16, 24, 15, 18, 33, 21, 14, 24, 21, 29, 31, 26, 18, 23, 22, 21,
     28, 30, 14, 30, 30, 21, 23, 29, 23, 25, 18, 10, 20, 13, 18, 28, 12, 17, 18, 20,
     15, 16, 16, 25, 21, 18, 26, 17, 22, 16, 15, 15, 25, 14, 18, 19, 16, 14, 20, 28,
     13, 28, 39, 40, 29, 25, 27, 26, 18, 17, 20, 25, 25, 22, 19, 14, 21, 22, 18, 10,
     29, 24, 21, 21, 13, 14, 25, 20, 29, 22, 11, 14, 17, 17, 13, 21, 11, 19, 17, 18,
     20, 8, 21, 18, 24, 21, 15, 27, 21]"

definition VERSE_COUNT_OFFSET :: "nat list" where
  "VERSE_COUNT_OFFSET =
    [0, 50, 90, 117, 153, 187, 211, 232, 236, 267,
     291, 313, 338, 367, 403, 413, 426, 436, 478, 628,
     659, 671, 679, 745, 797, 802, 850, 862, 876, 879,
     888, 889, 893, 900, 903, 906, 909, 911, 925, 929,
     957, 973, 997, 1018, 1046, 1062, 1078, 1091, 1097, 1103,
     1107, 1111, 1116, 1119, 1125, 1129, 1132, 1133, 1146, 1151,
     1156, 1159, 1164, 1165, 1166, 1167]"

text \<open>
  Reading a constant array at a computed index. Outside the array the source reads
  whatever lies there; nothing is known of that value.
\<close>

definition array_at :: "'a list \<Rightarrow> int \<Rightarrow> 'a" where
  "array_at xs i = (if 0 \<le> i \<and> i < int (length xs) then xs ! nat i else undefined)"

definition chapters :: "nat \<Rightarrow> nat" where
  "chapters book = snd (array_at BIBLE_BOOKS (int book))"

definition book_chapter_verses :: "nat \<Rightarrow> nat \<Rightarrow> nat" where
  "book_chapter_verses book chapter =
     array_at VERSE_COUNTS (int (array_at VERSE_COUNT_OFFSET (int book)) + int chapter - 1)"

section \<open>Reference picker\<close>

definition clamp_verse :: "App \<Rightarrow> App" where
  "clamp_verse app =
     (if api_verse_sel app > book_chapter_verses (api_book_sel app) (api_chapter_sel app)
      then app\<lparr>api_verse_sel := book_chapter_verses (api_book_sel app) (api_chapter_sel app)\<rparr>
      else app)"

definition clamp_chapter :: "App \<Rightarrow> App" where
  "clamp_chapter app =
     (if api_chapter_sel app > chapters (api_book_sel app)
      then app\<lparr>api_chapter_sel := chapters (api_book_sel app)\<rparr>
      else app)"

text \<open>The \<open>InputKeyLeft\<close> case of \<open>on_api_menu\<close>, by selected row.\<close>

definition on_api_menu_left :: "App \<Rightarrow> App" where
  "on_api_menu_left app =
     (if api_menu_sel app = 1 then
        clamp_verse (clamp_chapter
          (if api_book_sel app > 0 then app\<lparr>api_book_sel := api_book_sel app - 1\<rparr>
           else app\<lparr>api_book_sel := BIBLE_BOOKS_COUNT - 1\<rparr>))
      else if api_menu_sel app = 2 then
        clamp_verse
          (if api_chapter_sel app > 1 then app\<lparr>api_chapter_sel := api_chapter_sel app - 1\<rparr>
           else app\<lparr>api_chapter_sel := chapters (api_book_sel app)\<rparr>)
      else if api_menu_sel app = 3 then
        (if api_verse_sel app > 1 then app\<lparr>api_verse_sel := api_verse_sel app - 1\<rparr>
         else app\<lparr>api_verse_sel := book_chapter_verses (api_book_sel app) (api_chapter_sel app)\<rparr>)
      else app)"

text \<open>The \<open>InputKeyRight\<close> case of \<open>on_api_menu\<close>.\<close>

definition on_api_menu_right :: "App \<Rightarrow> App" where
  "on_api_menu_right app =
     (if api_menu_sel app = 1 then
        clamp_verse (clamp_chapter
          (if api_book_sel app < BIBLE_BOOKS_COUNT - 1 then app\<lparr>api_book_sel := api_book_sel app + 1\<rparr>
           else app\<lparr>api_book_sel := 0\<rparr>))
      else if api_menu_sel app = 2 then
        clamp_verse
          (if api_chapter_sel app < chapters (api_book_sel app)
           then app\<lparr>api_chapter_sel := api_chapter_sel app + 1\<rparr>
           else app\<lparr>api_chapter_sel := 1\<rparr>)
      else if api_menu_sel app = 3 then
        (if api_verse_sel app < book_chapter_verses (api_book_sel app) (api_chapter_sel app)
         then app\<lparr>api_verse_sel := api_verse_sel app + 1\<rparr>
         else app\<lparr>api_verse_sel := 1\<rparr>)
      else app)"

section \<open>Settings\<close>

text \<open>The file name of a path: what follows its last \<open>/\<close>, or all of it.\<close>

definition basename :: "string \<Rightarrow> string" where
  "basename p =
     (if CHR ''/'' \<in> set p then rev (takeWhile (\<lambda>c. c \<noteq> CHR ''/'') (rev p)) else p)"

text \<open>
  The eight lines that \<open>settings_save\<close> formats into \<open>buf[96]\<close>. \<open>snprintf\<close> returns the
  length of the whole text, which the source hands to \<open>storage_file_write\<close>. A text
  of at most 95 bytes is in the buffer with its NUL and is written as it is; of a text of
  exactly 96 bytes the buffer holds the first 95 and the NUL, and these 96 bytes are
  written; a longer text would make the write read beyond the buffer, and the model has
  no result (\<open>None\<close>) there. The source calls it with \<open>vfile_sel\<close> below
  \<open>vfile_count\<close> and \<open>api_trans_sel\<close> below 9; the two table reads mean nothing
  otherwise.
\<close>

definition settings_lines :: "App \<Rightarrow> string list" where
  "settings_lines app =
     [''verse_file='' @ basename (path (vfiles app ! vfile_sel app)) @ [LF],
      ''font_size='' @ show_dec (font_choice app) @ [LF],
      ''api_trans='' @ fst (API_TRANSLATIONS ! api_trans_sel app) @ [LF],
      ''api_book='' @ show_dec (api_book_sel app) @ [LF],
      ''api_chapter='' @ show_dec (api_chapter_sel app) @ [LF],
      ''api_verse='' @ show_dec (api_verse_sel app) @ [LF],
      ''daily_idx='' @ show_dec (daily_verse_idx app) @ [LF],
      ''daily_day='' @ show_dec (daily_verse_day app) @ [LF]]"

definition snprintf_written :: "string \<Rightarrow> string" where
  "snprintf_written l = (if length l < 96 then l else take 95 l @ [NUL])"

definition settings_save :: "App \<Rightarrow> App option" where
  "settings_save app =
     (if \<not> storage_writable app then Some app
      else if list_all (\<lambda>l. length l \<le> 96) (settings_lines app)
      then Some (app\<lparr>settings_txt :=
                   Some (concat (map snprintf_written (settings_lines app)))\<rparr>)
      else None)"

text \<open>The inner loop of \<open>settings_load\<close>: the buffer, \<open>done\<close> and the bytes left.\<close>

fun settings_read_line :: "string \<Rightarrow> string \<Rightarrow> string \<times> bool \<times> string" where
  "settings_read_line line [] =
     (if length line < 96 - 1 then (line, True, []) else (line, False, []))"
| "settings_read_line line (ch # fs) =
     (if length line < 96 - 1 then
        (if ch = CR then settings_read_line line fs
         else if ch = LF then (line, False, fs)
         else settings_read_line (line @ [ch]) fs)
      else (line, False, ch # fs))"

lemma settings_read_line_grows:
  "settings_read_line line fs = (l, d, fs') \<Longrightarrow>
   length l + length fs' \<le> length line + length fs \<and> length line \<le> length l \<and>
   (\<not> d \<and> length l < 95 \<longrightarrow> length fs' < length fs)"
  by (induction line fs rule: settings_read_line.induct) (auto split: if_splits)

lemma settings_read_line_progress:
  "(l, d, fs') = settings_read_line [] fs \<Longrightarrow> \<not> d \<Longrightarrow> length fs' < length fs"
  using settings_read_line_grows [of "[]" fs l d fs'] by (cases "length l < 95") auto

text \<open>One \<open>key=value\<close> line applied to the state: the \<open>if\<close> chain over the keys.\<close>

definition settings_apply :: "string \<Rightarrow> App \<Rightarrow> App" where
  "settings_apply line app =
     (case strchr line (CHR ''='') of
        None \<Rightarrow> app
      | Some p \<Rightarrow>
          (let key = take p (cstr line); val = drop (Suc p) (cstr line) in
           if key = ''verse_file'' then
             (case find_first (\<lambda>vf. basename (path vf) = val) (vfiles app) of
                Some i \<Rightarrow> app\<lparr>vfile_sel := i\<rparr> | None \<Rightarrow> app)
           else if key = ''font_size'' then
             (let v = atoi val in
              if v \<ge> 0 \<and> v < int FONT_COUNT then app\<lparr>font_choice := nat v\<rparr> else app)
           else if key = ''api_trans'' then
             (case find_first (\<lambda>t. val = fst t) API_TRANSLATIONS of
                Some i \<Rightarrow> app\<lparr>api_trans_sel := i\<rparr> | None \<Rightarrow> app)
           else if key = ''api_book'' then
             (let v = atoi val in
              if v \<ge> 0 \<and> v < int BIBLE_BOOKS_COUNT then app\<lparr>api_book_sel := nat v\<rparr> else app)
           else if key = ''api_chapter'' then
             (let v = atoi val in
              if v \<ge> 1 \<and> v \<le> 150 then app\<lparr>api_chapter_sel := nat v\<rparr> else app)
           else if key = ''api_verse'' then
             (let v = atoi val in
              if v \<ge> 1 \<and> v \<le> 176 then app\<lparr>api_verse_sel := nat v\<rparr> else app)
           else if key = ''daily_idx'' then
             (let v = atoi val in
              if v \<ge> 0 \<and> v < int MAX_VERSES then app\<lparr>daily_verse_idx := nat v\<rparr> else app)
           else if key = ''daily_day'' then app\<lparr>daily_verse_day := strtoul val\<rparr>
           else app))"

function settings_load_loop :: "string \<Rightarrow> App \<Rightarrow> App" where
  "settings_load_loop fs app =
     (case settings_read_line [] fs of (line, done, fs') \<Rightarrow>
        (let app' = (if line = [] then app else settings_apply line app) in
         if done then app' else settings_load_loop fs' app'))"
  by pat_completeness auto
termination
proof (relation "measure (\<lambda>(fs, app). length fs)")
qed (auto dest: settings_read_line_progress)

declare settings_load_loop.simps [simp del]

definition settings_load :: "App \<Rightarrow> App" where
  "settings_load app =
     (case settings_txt app of None \<Rightarrow> app | Some fs \<Rightarrow> settings_load_loop fs app)"

section \<open>Example inputs and notions used in the statements\<close>

definition gen_file :: string where
  "gen_file = ''Gen 1:1|Genesis|In the beginning...'' @ [LF] @ [LF] @
     ''Gen 1:2|Genesis|And the earth...'' @ [LF]"

definition long_line :: string where
  "long_line = ''a|'' @ replicate 317 (CHR ''x'') @ ''b|c''"

definition long_ok :: string where
  "long_ok = ''John 3:16|John|'' @ replicate 320 (CHR ''x'')"

definition mixed_file :: string where
  "mixed_file = ''hello'' @ [LF] @ ''John 3:16|John|For God'' @ [LF]"

text \<open>
  A file with a title line before its two records, and a file of four records with a
  blank line after the first; the second record of the latter is the line \<open>|\<close>.
\<close>

definition header_file :: string where
  "header_file = ''# KJV'' @ [LF] @ ''John 3:16|John|For God so loved the world'' @ [LF] @
     ''John 11:35|John|Jesus wept.'' @ [LF]"

definition blank_file :: string where
  "blank_file = ''a|1'' @ [LF] @ [LF] @ ''|'' @ [LF] @ ''c|x'' @ [LF] @ ''d|y'' @ [LF]"

text \<open>The long line of a file with CRLF line ends: its CR is part of the line.\<close>

definition long_crlf :: string where
  "long_crlf = long_ok @ [CR]"

text \<open>
  The bytes of a line that the readers store: all but CR, which they read and drop.
\<close>

definition payload :: "string \<Rightarrow> string" where
  "payload l = filter (\<lambda>c. c \<noteq> CR) l"

text \<open>
  The buffers that successive passes of the inner loop of \<open>build_index\<close> fill from the
  stored bytes of one physical line: 319 bytes each, the last one shorter (empty when the
  length is a multiple of 319).
\<close>

function pieces :: "string \<Rightarrow> string list" where
  "pieces s =
     (if length s < LINE_BUF_LEN - 1 then [s]
      else take (LINE_BUF_LEN - 1) s # pieces (drop (LINE_BUF_LEN - 1) s))"
  by pat_completeness auto
termination
  by (relation "measure length") (auto simp: LINE_BUF_LEN_def)

declare pieces.simps [simp del]

text \<open>
  A text has a number at its start, as \<open>atoi\<close> reads it, when a decimal digit follows
  its leading white space and optional sign.
\<close>

definition has_number :: "string \<Rightarrow> bool" where
  "has_number s =
     (case dropWhile isspace s of
        [] \<Rightarrow> False
      | c # cs \<Rightarrow> if c = CHR ''-'' \<or> c = CHR ''+'' then (case cs of [] \<Rightarrow> False | d # ds \<Rightarrow> isdigit d)
                  else isdigit c)"

text \<open>An index of \<open>n\<close> entries, for states with \<open>verse_count = n\<close>.\<close>

definition verses :: "nat \<Rightarrow> VerseIndex list" where
  "verses n = replicate n \<lparr>offset = 0, ref = []\<rparr>"

abbreviation SP :: char where "SP \<equiv> CHR '' ''"

text \<open>\<open>if(pos < len && text[pos] == ' ') pos++\<close>, on the text that is left.\<close>

definition skip_space :: "string \<Rightarrow> string" where
  "skip_space s = (case s of [] \<Rightarrow> [] | c # cs \<Rightarrow> if c = SP then cs else s)"

text \<open>Where the line breaks in a text longer than \<open>c\<close>: the scan, or \<open>c\<close> if it finds 0.\<close>

definition brk_at :: "nat \<Rightarrow> string \<Rightarrow> nat" where
  "brk_at c t = (let b0 = find_brk t 0 c in if b0 = 0 then c else b0)"

text \<open>
  The loop of \<open>word_wrap\<close> as a function of the text that is left and the number of lines
  that may still be emitted.
\<close>

fun wrap_from :: "nat \<Rightarrow> nat \<Rightarrow> string \<Rightarrow> string list" where
  "wrap_from 0 c t = []"
| "wrap_from (Suc n) c t =
     (if t = [] then []
      else if length t \<le> c then [t]
      else take (brk_at c t) t # wrap_from n c (skip_space (drop (brk_at c t) t)))"

text \<open>
  The states that \<open>settings_save\<close> is called on: the selected slot holds a verse file,
  the file names of the slots differ (they come from one directory), the selected file
  name fits the line buffer and has no line end or NUL in it (\<open>discover_verse_files\<close>
  reads names of at most 63 bytes), and every value is in the range that
  \<open>settings_load\<close> accepts for it.
\<close>

definition settings_valid :: "App \<Rightarrow> bool" where
  "settings_valid app =
     (vfile_sel app < length (vfiles app) \<and>
      distinct (map (\<lambda>vf. basename (path vf)) (vfiles app)) \<and>
      length (basename (path (vfiles app ! vfile_sel app))) \<le> 83 \<and>
      CR \<notin> set (basename (path (vfiles app ! vfile_sel app))) \<and>
      LF \<notin> set (basename (path (vfiles app ! vfile_sel app))) \<and>
      NUL \<notin> set (basename (path (vfiles app ! vfile_sel app))) \<and>
      font_choice app < FONT_COUNT \<and> api_trans_sel app < API_TRANS_COUNT \<and>
      api_book_sel app < BIBLE_BOOKS_COUNT \<and>
      1 \<le> api_chapter_sel app \<and> api_chapter_sel app \<le> 150 \<and>
      1 \<le> api_verse_sel app \<and> api_verse_sel app \<le> 176 \<and>
      daily_verse_idx app < MAX_VERSES \<and> daily_verse_day app < 2 ^ 32)"

definition settings_ex :: App where
  "settings_ex = app0\<lparr>vfiles :=
       [\<lparr>label = ''KJV (English)'', path = ''/ext/apps_data/bible_viewer/verses_en.txt''\<rparr>,
        \<lparr>label = ''ESV (English)'', path = ''/ext/apps_data/bible_viewer/verses_esv.txt''\<rparr>],
     vfile_sel := 1, font_choice := 3, api_trans_sel := 1, api_book_sel := 42,
     api_chapter_sel := 3, api_verse_sel := 16, daily_verse_idx := 123,
     daily_verse_day := 4000000000\<rparr>"

section \<open>Properties of the verse index\<close>

lemma unat_step: "unat (off :: 32 word) + Suc n < 2 ^ 32 \<Longrightarrow> unat (off + 1) = Suc (unat off)"
  using unat_add_lem [of off 1] by simp

lemma index_read_line_offset:
  "index_read_line line fs off = (l, e, fs', off') \<Longrightarrow> unat off + length fs < 2 ^ 32 \<Longrightarrow>
   unat off' + length fs' = unat off + length fs"
proof (induction line fs off rule: index_read_line.induct)
  case (1 line off)
  then show ?case by (auto split: if_splits)
next
  case (2 line ch fs off)
  from "2.prems"(2) have step: "unat (off + 1) = Suc (unat off)"
    using unat_step [of off "length fs"] by simp
  show ?case
  proof (cases "length line < LINE_BUF_LEN - 1")
    case False
    with "2.prems" show ?thesis by auto
  next
    case True
    note room = True
    show ?thesis
    proof (cases "ch = CR")
      case True
      with room 2 step show ?thesis by simp
    next
      case False
      note nocr = False
      show ?thesis
      proof (cases "ch = LF")
        case True
        with room nocr "2.prems" step show ?thesis by auto
      next
        case False
        with room nocr 2 step show ?thesis by simp
      qed
    qed
  qed
qed

lemma build_index_loop_full:
  "\<not> length idx < MAX_VERSES \<Longrightarrow> build_index_loop fs off idx = (idx, fs)"
  by (subst build_index_loop.simps) simp

lemma build_index_loop_step:
  "length idx < MAX_VERSES \<Longrightarrow> index_read_line [] fs off = (line, eof, fs', off') \<Longrightarrow>
   build_index_loop fs off idx =
     (if line = [] \<and> eof then (idx, fs')
      else if line = [] then build_index_loop fs' off' idx
      else (case strchr line (CHR ''|'') of
              None \<Rightarrow> if eof then (idx, fs') else build_index_loop fs' off' idx
            | Some p \<Rightarrow>
                if eof
                then (idx @ [\<lparr>offset = off, ref = take (if p \<ge> REF_LEN then REF_LEN - 1 else p) line\<rparr>], fs')
                else build_index_loop fs' off'
                       (idx @ [\<lparr>offset = off, ref = take (if p \<ge> REF_LEN then REF_LEN - 1 else p) line\<rparr>])))"
  by (subst build_index_loop.simps) (simp add: Let_def split: option.splits)

lemma build_index_loop_sorted:
  "build_index_loop fs off idx = (idx', r) \<Longrightarrow> unat off + length fs < 2 ^ 32 \<Longrightarrow>
   sorted_wrt (<) (map offset idx) \<Longrightarrow> (\<forall>e \<in> set idx. offset e < off) \<Longrightarrow>
   sorted_wrt (<) (map offset idx')"
proof (induction fs off idx rule: build_index_loop.induct)
  case (1 fs off idx)
  show ?case
  proof (cases "length idx < MAX_VERSES")
    case False
    with "1.prems" show ?thesis by (simp add: build_index_loop_full)
  next
    case True
    note room = True
    obtain line eof fs' off' where rd: "index_read_line [] fs off = (line, eof, fs', off')"
      by (cases "index_read_line [] fs off") auto
    from index_read_line_offset [OF rd "1.prems"(2)]
    have cnt: "unat off' + length fs' = unat off + length fs" .
    from index_read_line_length [OF rd] have le: "length fs' \<le> length fs" .
    from cnt le have off_le: "off \<le> off'" by (simp add: word_le_nat_alt)
    from cnt "1.prems"(2) have bound': "unat off' + length fs' < 2 ^ 32" by simp
    have older: "\<forall>e \<in> set idx. offset e < off'"
      using "1.prems"(4) off_le by auto
    show ?thesis
    proof (cases "line = [] \<and> eof")
      case True
      with room rd "1.prems" show ?thesis by (simp add: build_index_loop_step [OF room rd])
    next
      case False
      note cont = False
      from index_read_line_start_progress [OF rd [symmetric]] cont
      have "length fs' < length fs" by auto
      with cnt have off_lt: "off < off'" by (simp add: word_less_nat_alt)
      show ?thesis
      proof (cases "line = []")
        case True
        with cont have ne: "\<not> eof" by simp
        from True ne room rd "1.prems"(1)
        have "build_index_loop fs' off' idx = (idx', r)" by (simp add: build_index_loop_step [OF room rd])
        from "1.IH"(1) [OF room refl rd [symmetric] refl refl _ True this bound' "1.prems"(3) older]
        show ?thesis using cont by simp
      next
        case False
        note ne = False
        show ?thesis
        proof (cases "strchr line (CHR ''|'')")
          case None
          show ?thesis
          proof (cases eof)
            case True
            with None ne room rd "1.prems" show ?thesis by (simp add: build_index_loop_step [OF room rd])
          next
            case False
            with None ne room rd "1.prems"(1)
            have "build_index_loop fs' off' idx = (idx', r)" by (simp add: build_index_loop_step [OF room rd])
            from "1.IH"(2) [OF room refl rd [symmetric] refl refl cont ne None False this bound' "1.prems"(3) older]
            show ?thesis .
          qed
        next
          case (Some p)
          define vi where "vi = \<lparr>offset = off, ref = take (if p \<ge> REF_LEN then REF_LEN - 1 else p) line\<rparr>"
          have srt: "sorted_wrt (<) (map offset (idx @ [vi]))"
            using "1.prems"(3,4) by (auto simp: sorted_wrt_append vi_def)
          have older': "\<forall>e \<in> set (idx @ [vi]). offset e < off'"
            using older off_lt by (auto simp: vi_def)
          show ?thesis
          proof (cases eof)
            case True
            with Some ne room rd "1.prems"(1) have "idx' = idx @ [vi]"
              by (simp add: build_index_loop_step [OF room rd] vi_def)
            with srt show ?thesis by simp
          next
            case False
            with Some ne room rd "1.prems"(1)
            have "build_index_loop fs' off' (idx @ [vi]) = (idx', r)"
              by (simp add: build_index_loop_step [OF room rd] vi_def)
            from "1.IH"(3) [OF room refl rd [symmetric] refl refl cont ne Some refl _ refl False this bound' srt older']
            show ?thesis by (simp add: vi_def)
          qed
        qed
      qed
    qed
  qed
qed

lemma build_index_loop_count:
  "build_index_loop fs off idx = (idx', r) \<Longrightarrow> length idx \<le> MAX_VERSES \<Longrightarrow> length idx' \<le> MAX_VERSES"
proof (induction fs off idx arbitrary: idx' r rule: build_index_loop.induct)
  case (1 fs off idx)
  show ?case
  proof (cases "length idx < MAX_VERSES")
    case False
    with "1.prems" show ?thesis by (simp add: build_index_loop_full)
  next
    case True
    note room = True
    obtain line eof fs' off' where rd: "index_read_line [] fs off = (line, eof, fs', off')"
      by (cases "index_read_line [] fs off") auto
    from True have "length idx \<le> MAX_VERSES" "Suc (length idx) \<le> MAX_VERSES" by simp_all
    with "1.prems"(1) "1.IH" [OF room refl rd [symmetric] refl refl] show ?thesis
      unfolding build_index_loop_step [OF room rd]
      by (auto split: if_splits option.splits)
  qed
qed

lemma build_index_loop_skip_blank:
  "length idx < MAX_VERSES \<Longrightarrow>
   build_index_loop (replicate n LF @ fs) off idx = build_index_loop fs (off + of_nat n) idx"
proof (induction n arbitrary: off)
  case 0
  then show ?case by simp
next
  case (Suc n)
  have "build_index_loop (replicate (Suc n) LF @ fs) off idx =
        build_index_loop (replicate n LF @ fs) (off + 1) idx"
    using build_index_loop_step [OF Suc.prems, of "replicate (Suc n) LF @ fs" off "[]" False
        "replicate n LF @ fs" "off + 1"]
    by (simp add: LINE_BUF_LEN_def)
  also have "\<dots> = build_index_loop fs (off + 1 + of_nat n) idx"
    by (rule Suc.IH [OF Suc.prems])
  finally show ?case by (simp add: ac_simps)
qed

lemma index_build_index:
  "vfile app = Some f \<Longrightarrow>
   index (snd (build_index app)) = fst (build_index_loop (content f) 0 [])"
  by (simp add: build_index_def split: prod.splits)

lemma vfile_with_file: "vfile (with_file bytes) = Some \<lparr>content = bytes, position = 0\<rparr>"
  by (simp add: with_file_def app0_def)

text \<open>
  C1, as the code has it. The byte counter of \<open>build_index\<close> is a \<open>uint32_t\<close>: for every
  verse file shorter than \<open>2^32\<close> bytes, the offsets of the index entries are strictly
  increasing in index position, and \<open>verse_count\<close> never exceeds \<open>MAX_VERSES\<close> = 600.
\<close>

theorem build_index_offsets_increasing:
  assumes "vfile app = Some f" and "length (content f) < 2 ^ 32"
  shows "sorted_wrt (<) (map offset (index (snd (build_index app)))) \<and>
         verse_count (snd (build_index app)) \<le> MAX_VERSES \<and> MAX_VERSES = 600"
proof -
  obtain idx r where run: "build_index_loop (content f) 0 [] = (idx, r)"
    by (cases "build_index_loop (content f) 0 []") auto
  from assms(2) have "unat (0 :: 32 word) + length (content f) < 2 ^ 32" by simp
  from build_index_loop_sorted [OF run this] have "sorted_wrt (<) (map offset idx)" by simp
  moreover from build_index_loop_count [OF run] have "length idx \<le> MAX_VERSES" by simp
  ultimately show ?thesis using assms(1) run by (simp add: build_index_def MAX_VERSES_def)
qed

theorem build_index_offsets_increasing_witness:
  "vfile (with_file gen_file) = Some \<lparr>content = gen_file, position = 0\<rparr> \<and>
   length (content \<lparr>content = gen_file, position = 0\<rparr>) < 2 ^ 32 \<and>
   sorted_wrt (<) (map offset (index (snd (build_index (with_file gen_file))))) \<and>
   verse_count (snd (build_index (with_file gen_file))) \<le> MAX_VERSES"
proof -
  have v: "vfile (with_file gen_file) = Some \<lparr>content = gen_file, position = 0\<rparr>"
    by (simp add: with_file_def app0_def)
  have l: "length (content \<lparr>content = gen_file, position = 0\<rparr>) < 2 ^ 32"
    by (simp add: gen_file_def)
  from build_index_offsets_increasing [OF v l] v l show ?thesis by simp
qed

text \<open>
  C1 as it is stated, for every verse file, fails on a file of \<open>2^32\<close> bytes and more: the
  counter wraps. A record, \<open>2^32 - 4\<close> blank lines and a second record give two entries
  with the same offset 0.
\<close>

theorem build_index_offset_wraps:
  "\<not> sorted_wrt (<) (map offset (index (snd (build_index
       (with_file (''a|b'' @ [LF] @ replicate 4294967292 LF @ ''c|d'' @ [LF]))))))"
proof -
  have a: "build_index_loop (''a|b'' @ [LF] @ replicate 4294967292 LF @ ''c|d'' @ [LF]) 0 []
     = build_index_loop (replicate 4294967292 LF @ ''c|d'' @ [LF]) 4 [\<lparr>offset = 0, ref = ''a''\<rparr>]"
    by (subst build_index_loop.simps)
       (simp add: MAX_VERSES_def LINE_BUF_LEN_def strchr_def cstr_def REF_LEN_def)
  have b: "build_index_loop (replicate 4294967292 LF @ ''c|d'' @ [LF]) 4 [\<lparr>offset = 0, ref = ''a''\<rparr>]
     = build_index_loop (''c|d'' @ [LF]) (4 + of_nat 4294967292) [\<lparr>offset = 0, ref = ''a''\<rparr>]"
    by (rule build_index_loop_skip_blank) (simp add: MAX_VERSES_def)
  have c: "(4 + of_nat 4294967292 :: 32 word) = 0" by simp
  have "map offset (fst (build_index_loop
          (''a|b'' @ [LF] @ replicate 4294967292 LF @ ''c|d'' @ [LF]) 0 [])) = [0, 0]"
    unfolding a b c
    by (simp add: build_index_loop.simps MAX_VERSES_def LINE_BUF_LEN_def strchr_def cstr_def
        REF_LEN_def)
  then show ?thesis
    by (simp add: index_build_index [OF vfile_with_file])
qed

text \<open>
  C2. Indexing the file of three lines \<open>Gen 1:1|Genesis|In the beginning...\<close>, an empty
  line and \<open>Gen 1:2|Genesis|And the earth...\<close> succeeds with \<open>verse_count = 2\<close>: entry 0
  has offset 0, entry 1 has offset 37, where the third line starts, and the blank line
  has no entry and uses no verse id.
\<close>

theorem build_index_gen_file:
  "fst (build_index (with_file gen_file)) \<and>
   verse_count (snd (build_index (with_file gen_file))) = 2 \<and>
   index (snd (build_index (with_file gen_file))) =
     [\<lparr>offset = 0, ref = ''Gen 1:1''\<rparr>, \<lparr>offset = 37, ref = ''Gen 1:2''\<rparr>] \<and>
   drop 37 gen_file = ''Gen 1:2|Genesis|And the earth...'' @ [LF] \<and>
   take 37 gen_file = ''Gen 1:1|Genesis|In the beginning...'' @ [LF] @ [LF]"
proof -
  have "build_index_loop gen_file 0 [] =
        ([\<lparr>offset = 0, ref = ''Gen 1:1''\<rparr>, \<lparr>offset = 37, ref = ''Gen 1:2''\<rparr>], [])"
    by (simp add: gen_file_def build_index_loop.simps MAX_VERSES_def LINE_BUF_LEN_def
        strchr_def cstr_def REF_LEN_def)
  then show ?thesis
    by (simp add: build_index_def with_file_def app0_def gen_file_def)
qed

section \<open>Lines longer than the line buffer\<close>

lemma strchr_None: "c \<notin> set (cstr s) \<Longrightarrow> strchr s c = None"
  by (simp add: strchr_def)

lemma payload_simps [simp]:
  "payload [] = []"
  "payload (c # t) = (if c = CR then payload t else c # payload t)"
  "payload (a @ b) = payload a @ payload b"
  by (simp_all add: payload_def)

lemma pieces_short: "length s < LINE_BUF_LEN - 1 \<Longrightarrow> pieces s = [s]"
  by (subst pieces.simps) simp

lemma pieces_long:
  "length a = LINE_BUF_LEN - 1 \<Longrightarrow> pieces (a @ b) = a # pieces b"
  by (subst pieces.simps) simp

lemma index_read_line_append:
  "LF \<notin> set t \<Longrightarrow> length l + length (payload t) < LINE_BUF_LEN - 1 \<Longrightarrow>
   index_read_line l (t @ fs) off = index_read_line (l @ payload t) fs (off + of_nat (length t))"
proof (induction t arbitrary: l off)
  case Nil
  then show ?case by simp
next
  case (Cons c t)
  from Cons.prems have lf: "c \<noteq> LF" "LF \<notin> set t" and room: "length l < LINE_BUF_LEN - 1" by auto
  show ?case
  proof (cases "c = CR")
    case True
    with room have "index_read_line l ((c # t) @ fs) off = index_read_line l (t @ fs) (off + 1)"
      by simp
    also from Cons.prems True have "\<dots> = index_read_line (l @ payload t) fs (off + 1 + of_nat (length t))"
      by (intro Cons.IH) auto
    finally show ?thesis using True by (simp add: ac_simps)
  next
    case False
    with room lf have "index_read_line l ((c # t) @ fs) off = index_read_line (l @ [c]) (t @ fs) (off + 1)"
      by simp
    also from Cons.prems False have "\<dots> = index_read_line ((l @ [c]) @ payload t) fs (off + 1 + of_nat (length t))"
      by (intro Cons.IH) auto
    finally show ?thesis using False by (simp add: ac_simps)
  qed
qed

lemma index_read_line_buffer_full:
  "length l = LINE_BUF_LEN - 1 \<Longrightarrow> index_read_line l fs off = (l, False, fs, off)"
  by (cases fs) auto

lemma index_read_line_whole:
  assumes "LF \<notin> set t" "length (payload t) < LINE_BUF_LEN - 1"
  shows "index_read_line [] (t @ LF # rest) off = (payload t, False, rest, off + of_nat (Suc (length t)))"
proof -
  from assms have "index_read_line [] (t @ LF # rest) off =
      index_read_line ([] @ payload t) (LF # rest) (off + of_nat (length t))"
    by (intro index_read_line_append) auto
  with assms(2) show ?thesis by (simp add: ac_simps)
qed

lemma index_read_line_last:
  assumes "LF \<notin> set t" "length (payload t) < LINE_BUF_LEN - 1"
  shows "index_read_line [] t off = (payload t, True, [], off + of_nat (length t))"
proof -
  from assms have "index_read_line [] (t @ []) off =
      index_read_line ([] @ payload t) [] (off + of_nat (length t))"
    by (intro index_read_line_append) auto
  with assms(2) show ?thesis by simp
qed

lemma index_read_line_chunk:
  "LF \<notin> set t \<Longrightarrow> length l \<le> LINE_BUF_LEN - 1 \<Longrightarrow>
   length l + length (payload t) \<ge> LINE_BUF_LEN - 1 \<Longrightarrow>
   \<exists>a b. t = a @ b \<and> length l + length (payload a) = LINE_BUF_LEN - 1 \<and>
         (\<forall>fs off. index_read_line l (t @ fs) off =
                     (l @ payload a, False, b @ fs, off + of_nat (length a)))"
proof (induction t arbitrary: l)
  case Nil
  then have len: "length l = LINE_BUF_LEN - 1" by simp
  show ?case
  proof (intro exI [of _ "[]"] conjI allI)
    show "[] = [] @ ([] :: string)" by simp
    show "length l + length (payload []) = LINE_BUF_LEN - 1" using len by simp
    show "index_read_line l ([] @ fs) off =
          (l @ payload [], False, [] @ fs, off + of_nat (length ([] :: string)))" for fs off
      using index_read_line_buffer_full [OF len, of fs off] by simp
  qed
next
  case (Cons c t)
  from Cons.prems have lf: "c \<noteq> LF" "LF \<notin> set t" by auto
  show ?case
  proof (cases "length l = LINE_BUF_LEN - 1")
    case True
    show ?thesis
    proof (rule exI [of _ "[]"], rule exI [of _ "c # t"], intro conjI allI)
      show "c # t = [] @ c # t" by simp
      show "length l + length (payload []) = LINE_BUF_LEN - 1" using True by simp
      show "index_read_line l ((c # t) @ fs) off =
            (l @ payload [], False, (c # t) @ fs, off + of_nat (length ([] :: string)))" for fs off
        using index_read_line_buffer_full [OF True, of "(c # t) @ fs" off] by simp
    qed
  next
    case False
    with Cons.prems have room: "length l < LINE_BUF_LEN - 1" by simp
    show ?thesis
    proof (cases "c = CR")
      case True
      from Cons.prems True have "length l + length (payload t) \<ge> LINE_BUF_LEN - 1" by simp
      from Cons.IH [OF lf(2) Cons.prems(2) this]
      obtain a b where ab: "t = a @ b" "length l + length (payload a) = LINE_BUF_LEN - 1"
        and rd: "\<And>fs off. index_read_line l (t @ fs) off =
                  (l @ payload a, False, b @ fs, off + of_nat (length a))"
        by blast
      show ?thesis
      proof (rule exI [of _ "c # a"], rule exI [of _ b], intro conjI allI)
        show "c # t = (c # a) @ b" using ab(1) by simp
        show "length l + length (payload (c # a)) = LINE_BUF_LEN - 1" using ab(2) True by simp
        show "index_read_line l ((c # t) @ fs) off =
              (l @ payload (c # a), False, b @ fs, off + of_nat (length (c # a)))" for fs off
        proof -
          from True room have "index_read_line l ((c # t) @ fs) off = index_read_line l (t @ fs) (off + 1)"
            by simp
          also have "\<dots> = (l @ payload a, False, b @ fs, off + 1 + of_nat (length a))" by (rule rd)
          finally show ?thesis using True by (simp add: ac_simps)
        qed
      qed
    next
      case False
      from Cons.prems False room have p: "length (l @ [c]) \<le> LINE_BUF_LEN - 1"
        "length (l @ [c]) + length (payload t) \<ge> LINE_BUF_LEN - 1" by simp_all
      from Cons.IH [OF lf(2) p]
      obtain a b where ab: "t = a @ b" "length (l @ [c]) + length (payload a) = LINE_BUF_LEN - 1"
        and rd: "\<And>fs off. index_read_line (l @ [c]) (t @ fs) off =
                  ((l @ [c]) @ payload a, False, b @ fs, off + of_nat (length a))"
        by blast
      show ?thesis
      proof (rule exI [of _ "c # a"], rule exI [of _ b], intro conjI allI)
        show "c # t = (c # a) @ b" using ab(1) by simp
        show "length l + length (payload (c # a)) = LINE_BUF_LEN - 1" using ab(2) False by simp
        show "index_read_line l ((c # t) @ fs) off =
              (l @ payload (c # a), False, b @ fs, off + of_nat (length (c # a)))" for fs off
        proof -
          from False lf room have "index_read_line l ((c # t) @ fs) off =
              index_read_line (l @ [c]) (t @ fs) (off + 1)"
            by simp
          also have "\<dots> = ((l @ [c]) @ payload a, False, b @ fs, off + 1 + of_nat (length a))"
            by (rule rd)
          finally show ?thesis using False by (simp add: ac_simps)
        qed
      qed
    qed
  qed
qed

lemma index_read_line_first_chunk:
  assumes "LF \<notin> set t" "length (payload t) \<ge> LINE_BUF_LEN - 1"
  obtains a b where "t = a @ b" "payload a = take (LINE_BUF_LEN - 1) (payload t)"
    "payload b = drop (LINE_BUF_LEN - 1) (payload t)" "length (payload a) = LINE_BUF_LEN - 1"
    "length b < length t"
    "\<And>fs off. index_read_line [] (t @ fs) off = (payload a, False, b @ fs, off + of_nat (length a))"
proof -
  from index_read_line_chunk [OF assms(1), of "[]"] assms(2)
  obtain a b where ab: "t = a @ b" "length (payload a) = LINE_BUF_LEN - 1"
    and rd: "\<And>fs off. index_read_line [] (t @ fs) off =
               (payload a, False, b @ fs, off + of_nat (length a))"
    by auto
  from ab have "payload t = payload a @ payload b" by simp
  with ab(2) have td: "payload a = take (LINE_BUF_LEN - 1) (payload t)"
    "payload b = drop (LINE_BUF_LEN - 1) (payload t)" by simp_all
  from ab(2) have "a \<noteq> []" by (auto simp: LINE_BUF_LEN_def)
  with ab(1) have lt: "length b < length t" by simp
  show ?thesis by (rule that [OF ab(1) td ab(2) lt rd])
qed

lemma build_index_loop_skip_tail:
  "LF \<notin> set t \<Longrightarrow> \<forall>c \<in> set (pieces (payload t)). CHR ''|'' \<notin> set (cstr c) \<Longrightarrow>
   length idx < MAX_VERSES \<Longrightarrow>
   build_index_loop (t @ LF # rest) off idx =
     build_index_loop rest (off + of_nat (Suc (length t))) idx \<and>
   build_index_loop t off idx = (idx, [])"
proof (induction "length t" arbitrary: t off rule: less_induct)
  case less
  note room = less.prems(3)
  show ?case
  proof (cases "length (payload t) < LINE_BUF_LEN - 1")
    case True
    from less.prems(2) True have "CHR ''|'' \<notin> set (cstr (payload t))"
      by (simp add: pieces_short)
    then have np: "strchr (payload t) (CHR ''|'') = None" by (rule strchr_None)
    from index_read_line_whole [OF less.prems(1) True]
    have rd: "index_read_line [] (t @ LF # rest) off =
              (payload t, False, rest, off + of_nat (Suc (length t)))" .
    from index_read_line_last [OF less.prems(1) True]
    have rl: "index_read_line [] t off = (payload t, True, [], off + of_nat (length t))" .
    show ?thesis
      using build_index_loop_step [OF room rd] build_index_loop_step [OF room rl] np by simp
  next
    case False
    then have ge: "length (payload t) \<ge> LINE_BUF_LEN - 1" by simp
    from index_read_line_first_chunk [OF less.prems(1) ge]
    obtain a b where ab: "t = a @ b" "payload a = take (LINE_BUF_LEN - 1) (payload t)"
      "payload b = drop (LINE_BUF_LEN - 1) (payload t)" "length (payload a) = LINE_BUF_LEN - 1"
      "length b < length t"
      and rd: "\<And>fs off. index_read_line [] (t @ fs) off =
                 (payload a, False, b @ fs, off + of_nat (length a))"
      by blast
    have pt: "payload t = payload a @ payload b" using ab(1) by simp
    have pc: "pieces (payload t) = payload a # pieces (payload b)"
      unfolding pt by (rule pieces_long [OF ab(4)])
    from less.prems(2) have np: "strchr (payload a) (CHR ''|'') = None"
      and rest_ok: "\<forall>c \<in> set (pieces (payload b)). CHR ''|'' \<notin> set (cstr c)"
      by (simp_all add: pc strchr_None)
    have ne: "payload a \<noteq> []" using ab(4) by (auto simp: LINE_BUF_LEN_def)
    have lfb: "LF \<notin> set b" using less.prems(1) ab(1) by simp
    have step: "build_index_loop (t @ fs) off idx = build_index_loop (b @ fs) (off + of_nat (length a)) idx"
      for fs
      using build_index_loop_step [OF room rd [of fs off]] np ne by simp
    from less.hyps [OF ab(5) lfb rest_ok room, of "off + of_nat (length a)"]
    have ih: "build_index_loop (b @ LF # rest) (off + of_nat (length a)) idx =
              build_index_loop rest (off + of_nat (length a) + of_nat (Suc (length b))) idx"
      "build_index_loop b (off + of_nat (length a)) idx = (idx, [])"
      by simp_all
    have w: "off + of_nat (length a) + of_nat (Suc (length b)) = off + of_nat (Suc (length t))"
      using ab(1) by (simp add: add.assoc flip: of_nat_add)
    have "build_index_loop (t @ LF # rest) off idx =
          build_index_loop rest (off + of_nat (Suc (length t))) idx"
      using step [of "LF # rest"] ih(1) by (simp only: w)
    moreover have "build_index_loop t off idx = (idx, [])"
      using step [of "[]"] ih(2) by simp
    ultimately show ?thesis by (rule conjI)
  qed
qed

lemma takeWhile_of_takeWhile:
  "c \<in> set (takeWhile Q xs) \<Longrightarrow>
   takeWhile (\<lambda>x. x \<noteq> c) (takeWhile Q xs) = takeWhile (\<lambda>x. x \<noteq> c) xs"
  by (induction xs) (auto split: if_splits)

lemma takeWhile_of_take:
  assumes "c \<in> set (take n xs)"
  shows "takeWhile (\<lambda>x. x \<noteq> c) (take n xs) = takeWhile (\<lambda>x. x \<noteq> c) xs"
proof -
  have "takeWhile (\<lambda>x. x \<noteq> c) (take n xs @ drop n xs) = takeWhile (\<lambda>x. x \<noteq> c) (take n xs)"
    using assms by (intro takeWhile_append1 [of c]) auto
  then show ?thesis by simp
qed

lemma strchr_Some_take:
  assumes "c \<in> set (cstr (take n s))"
  shows "strchr (take n s) c = Some (length (takeWhile (\<lambda>x. x \<noteq> c) s))"
proof -
  from assms have "c \<in> set (take n s)" by (auto simp: cstr_def dest: set_takeWhileD)
  from takeWhile_of_take [OF this] takeWhile_of_takeWhile [of c "\<lambda>x. x \<noteq> NUL" "take n s"] assms
  have "takeWhile (\<lambda>x. x \<noteq> c) (cstr (take n s)) = takeWhile (\<lambda>x. x \<noteq> c) s"
    by (simp add: cstr_def)
  with assms show ?thesis by (simp add: strchr_def)
qed


text \<open>
  C9 as it is stated fails: the inner loop of \<open>build_index\<close> stops after 319 stored
  bytes and the next pass of the outer loop reads the rest of the physical line as a line
  of its own. A line of 322 bytes with a \<open>|\<close> after byte 319 gives two entries, the second
  at offset 319, inside the line.
\<close>

theorem long_line_two_entries:
  "index (snd (build_index (with_file (long_line @ [LF])))) =
     [\<lparr>offset = 0, ref = ''a''\<rparr>, \<lparr>offset = 319, ref = ''b''\<rparr>]"
  by code_simp

text \<open>
  C9, as the code has it. Take a physical line of more than 319 bytes, CR bytes included
  (so also one that ends in CR, before the LF of a CRLF file). Its stored bytes are read in
  pieces of 319. If \<open>strchr\<close> finds a \<open>|\<close> in the first piece (a \<open>|\<close> before any NUL) and
  in no later piece, the line gives exactly one entry, at the offset where the line
  starts, its reference cut from the first stored bytes; indexing goes on after the LF
  that ends the line, and ends with that entry when the file ends with the line.
\<close>

theorem long_line_one_entry:
  assumes long: "length line > LINE_BUF_LEN - 1"
    and nolf: "LF \<notin> set line"
    and pipe: "CHR ''|'' \<in> set (cstr (take (LINE_BUF_LEN - 1) (payload line)))"
    and tail: "\<forall>c \<in> set (pieces (drop (LINE_BUF_LEN - 1) (payload line))). CHR ''|'' \<notin> set (cstr c)"
    and room: "length idx < MAX_VERSES"
  shows "fst (build_index_loop (line @ LF # rest) off idx) =
         fst (build_index_loop rest (off + of_nat (Suc (length line)))
                (idx @ [\<lparr>offset = off,
                          ref = take (min (REF_LEN - 1)
                                       (length (takeWhile (\<lambda>x. x \<noteq> CHR ''|'') (payload line))))
                                  (payload line)\<rparr>])) \<and>
         fst (build_index_loop line off idx) =
           idx @ [\<lparr>offset = off,
                    ref = take (min (REF_LEN - 1)
                                 (length (takeWhile (\<lambda>x. x \<noteq> CHR ''|'') (payload line))))
                            (payload line)\<rparr>]"
proof -
  let ?n = "LINE_BUF_LEN - 1"
  let ?P = "payload line"
  let ?p = "length (takeWhile (\<lambda>x. x \<noteq> CHR ''|'') ?P)"
  let ?e = "\<lparr>offset = off, ref = take (min (REF_LEN - 1) ?p) ?P\<rparr>"
  have ne: "take ?n ?P \<noteq> []" using pipe by (auto simp: cstr_def)
  have sc: "strchr (take ?n ?P) (CHR ''|'') = Some ?p" by (rule strchr_Some_take [OF pipe])
  have "(if ?p \<ge> REF_LEN then REF_LEN - 1 else ?p) = min (REF_LEN - 1) ?p"
    by (simp add: REF_LEN_def)
  moreover have "min (min (REF_LEN - 1) ?p) ?n = min (REF_LEN - 1) ?p"
    by (simp add: REF_LEN_def LINE_BUF_LEN_def)
  ultimately
  have rf: "take (if ?p \<ge> REF_LEN then REF_LEN - 1 else ?p) (take ?n ?P) = take (min (REF_LEN - 1) ?p) ?P"
    by (simp only: take_take)
  show ?thesis
  proof (cases "length ?P < ?n")
    case True
    then have tk: "take ?n ?P = ?P" by simp
    from index_read_line_whole [OF nolf True]
    have rd: "index_read_line [] (line @ LF # rest) off =
              (take ?n ?P, False, rest, off + of_nat (Suc (length line)))" by (simp only: tk)
    from index_read_line_last [OF nolf True]
    have rl: "index_read_line [] line off = (take ?n ?P, True, [], off + of_nat (length line))"
      by (simp only: tk)
    have "build_index_loop (line @ LF # rest) off idx =
          build_index_loop rest (off + of_nat (Suc (length line))) (idx @ [?e])"
      using build_index_loop_step [OF room rd] ne sc rf by simp
    moreover have "build_index_loop line off idx = (idx @ [?e], [])"
      using build_index_loop_step [OF room rl] ne sc rf by simp
    ultimately show ?thesis by simp
  next
    case False
    then have ge: "length ?P \<ge> ?n" by simp
    from index_read_line_first_chunk [OF nolf ge]
    obtain a b where ab: "line = a @ b" "payload a = take ?n ?P"
      "payload b = drop ?n ?P" "length (payload a) = ?n" "length b < length line"
      and rd: "\<And>fs off. index_read_line [] (line @ fs) off =
                 (payload a, False, b @ fs, off + of_nat (length a))"
      by blast
    have rd': "index_read_line [] (line @ fs) off = (take ?n ?P, False, b @ fs, off + of_nat (length a))"
      for fs using rd [of fs off] by (simp only: ab(2))
    have first: "build_index_loop (line @ fs) off idx =
                 build_index_loop (b @ fs) (off + of_nat (length a)) (idx @ [?e])" for fs
      using build_index_loop_step [OF room rd' [of fs]] ne sc rf by simp
    have lfb: "LF \<notin> set b" using nolf ab(1) by simp
    have tl: "\<forall>c \<in> set (pieces (payload b)). CHR ''|'' \<notin> set (cstr c)"
      using tail by (simp only: ab(3))
    have w: "off + of_nat (length a) + of_nat (Suc (length b)) = off + of_nat (Suc (length line))"
      using ab(1) by (simp add: add.assoc flip: of_nat_add)
    show ?thesis
    proof (cases "length (idx @ [?e]) < MAX_VERSES")
      case True
      from build_index_loop_skip_tail [OF lfb tl True, of rest "off + of_nat (length a)"]
      have sk: "build_index_loop (b @ LF # rest) (off + of_nat (length a)) (idx @ [?e]) =
                build_index_loop rest (off + of_nat (Suc (length line))) (idx @ [?e])"
        "build_index_loop b (off + of_nat (length a)) (idx @ [?e]) = (idx @ [?e], [])"
        by (simp_all only: w)
      have "build_index_loop (line @ LF # rest) off idx =
            build_index_loop rest (off + of_nat (Suc (length line))) (idx @ [?e])"
        using first [of "LF # rest"] sk(1) by simp
      moreover have "build_index_loop line off idx = (idx @ [?e], [])"
        using first [of "[]"] sk(2) by simp
      ultimately show ?thesis by simp
    next
      case False
      have "fst (build_index_loop (line @ LF # rest) off idx) = idx @ [?e]"
        unfolding first [of "LF # rest"] by (simp only: build_index_loop_full [OF False] fst_conv)
      moreover have "fst (build_index_loop rest (off + of_nat (Suc (length line))) (idx @ [?e])) = idx @ [?e]"
        by (simp only: build_index_loop_full [OF False] fst_conv)
      moreover have "fst (build_index_loop line off idx) = idx @ [?e]"
        using first [of "[]"] by (simp only: build_index_loop_full [OF False] fst_conv append_Nil2)
      ultimately show ?thesis by simp
    qed
  qed
qed

theorem long_line_one_entry_witness:
  "length long_crlf > LINE_BUF_LEN - 1 \<and> LF \<notin> set long_crlf \<and>
   CHR ''|'' \<in> set (cstr (take (LINE_BUF_LEN - 1) (payload long_crlf))) \<and>
   list_all (\<lambda>c. CHR ''|'' \<notin> set (cstr c)) (pieces (drop (LINE_BUF_LEN - 1) (payload long_crlf))) \<and>
   length ([] :: VerseIndex list) < MAX_VERSES \<and>
   fst (build_index_loop (long_crlf @ LF # ''Mark 1:1|Mark|The beginning'' @ [CR, LF]) 0 []) =
     [\<lparr>offset = 0, ref = ''John 3:16''\<rparr>, \<lparr>offset = 337, ref = ''Mark 1:1''\<rparr>] \<and>
   fst (build_index_loop long_crlf 0 []) = [\<lparr>offset = 0, ref = ''John 3:16''\<rparr>]"
proof -
  have pl: "payload long_crlf = long_ok"
    by (simp add: long_crlf_def long_ok_def payload_def)
  have h1: "length long_crlf > LINE_BUF_LEN - 1" and h2: "LF \<notin> set long_crlf"
    by (simp_all add: long_crlf_def long_ok_def LINE_BUF_LEN_def)
  have h3: "CHR ''|'' \<in> set (cstr (take (LINE_BUF_LEN - 1) (payload long_crlf)))"
    unfolding pl by (simp add: long_ok_def LINE_BUF_LEN_def cstr_def)
  have h4: "\<forall>c \<in> set (pieces (drop (LINE_BUF_LEN - 1) (payload long_crlf))). CHR ''|'' \<notin> set (cstr c)"
    unfolding pl by (simp add: long_ok_def LINE_BUF_LEN_def cstr_def pieces.simps)
  have r: "length ([] :: VerseIndex list) < MAX_VERSES" by (simp add: MAX_VERSES_def)
  have p: "length (takeWhile (\<lambda>x. x \<noteq> CHR ''|'') long_ok) = 9"
    by (simp add: long_ok_def)
  have t: "take 9 long_ok = ''John 3:16''" by (simp add: long_ok_def)
  have l: "length long_crlf = 336" by (simp add: long_crlf_def long_ok_def)
  have nx: "build_index_loop (''Mark 1:1|Mark|The beginning'' @ [CR, LF]) 337 [\<lparr>offset = 0, ref = ''John 3:16''\<rparr>]
     = ([\<lparr>offset = 0, ref = ''John 3:16''\<rparr>, \<lparr>offset = 337, ref = ''Mark 1:1''\<rparr>], [])"
    by (simp add: build_index_loop.simps MAX_VERSES_def LINE_BUF_LEN_def strchr_def cstr_def REF_LEN_def)
  have "fst (build_index_loop (long_crlf @ LF # ''Mark 1:1|Mark|The beginning'' @ [CR, LF]) 0 []) =
     [\<lparr>offset = 0, ref = ''John 3:16''\<rparr>, \<lparr>offset = 337, ref = ''Mark 1:1''\<rparr>] \<and>
   fst (build_index_loop long_crlf 0 []) = [\<lparr>offset = 0, ref = ''John 3:16''\<rparr>]"
    using long_line_one_entry [OF h1 h2 h3 h4 r, of "''Mark 1:1|Mark|The beginning'' @ [CR, LF]" 0] nx
    unfolding pl p l by (simp add: t REF_LEN_def)
  with h1 h2 h3 h4 r show ?thesis by (simp add: list_all_iff)
qed

section \<open>Search ordinals and verse ids\<close>

text \<open>
  C4 on a file with a line that has no \<open>|\<close>. \<open>build_index\<close> skips that line, so verse 0
  is the record of the second line; \<open>do_search\<close> counts it, so the hit for \<open>hello\<close> has
  ordinal 0 and names the record of another line.
\<close>

theorem search_ordinal_is_not_verse_id:
  "index (snd (build_index (with_file mixed_file))) = [\<lparr>offset = 6, ref = ''John 3:16''\<rparr>] \<and>
   hits (do_search ((snd (build_index (with_file mixed_file)))
           \<lparr>search_buf := ''hello'', search_len := 5\<rparr>)) = [0] \<and>
   search_lines mixed_file = [''hello'', ''John 3:16|John|For God''] \<and>
   index_lines mixed_file = [''John 3:16|John|For God'']"
  by code_simp

section \<open>Loading bookmarks\<close>

lemma not_digit_sign: "\<not> isdigit (CHR ''-'')" "\<not> isdigit (CHR ''+'')"
  by (simp_all add: isdigit_def)

lemma digits_val_no_digit: "(case cs of [] \<Rightarrow> True | d # ds \<Rightarrow> \<not> isdigit d) \<Longrightarrow> digits_val 0 cs = 0"
  by (cases cs) auto

lemma atoi_no_number:
  assumes "\<not> has_number (cstr buf)"
  shows "atoi buf = 0"
proof (cases "dropWhile isspace (cstr buf)")
  case Nil
  show ?thesis unfolding atoi_def Nil by simp
next
  case (Cons c cs)
  show ?thesis
  proof (cases "c = CHR ''-'' \<or> c = CHR ''+''")
    case True
    with assms Cons have "case cs of [] \<Rightarrow> True | d # ds \<Rightarrow> \<not> isdigit d"
      by (auto simp: has_number_def split: list.splits)
    then have "digits_val 0 cs = 0" by (rule digits_val_no_digit)
    with True Cons show ?thesis by (auto simp: atoi_def)
  next
    case False
    with assms Cons have "\<not> isdigit c" by (simp add: has_number_def)
    with False Cons show ?thesis by (simp add: atoi_def)
  qed
qed

lemma has_number_take: "has_number (take n s) \<Longrightarrow> has_number s"
proof (induction s arbitrary: n)
  case Nil
  then show ?case by simp
next
  case (Cons c s)
  show ?case
  proof (cases n)
    case 0
    with Cons.prems show ?thesis by (simp add: has_number_def)
  next
    case (Suc m)
    show ?thesis
    proof (cases "isspace c")
      case True
      with Cons.prems Suc have "has_number (take m s)" by (simp add: has_number_def)
      from Cons.IH [OF this] True show ?thesis by (simp add: has_number_def)
    next
      case False
      with Cons.prems Suc show ?thesis
        by (cases m; cases s) (auto simp: has_number_def split: if_splits list.splits)
    qed
  qed
qed

lemma takeWhile_take: "takeWhile P (take n xs) = take n (takeWhile P xs)"
proof (induction xs arbitrary: n)
  case Nil
  then show ?case by simp
next
  case (Cons x xs)
  then show ?case by (cases n) auto
qed

lemma cstr_take: "cstr (take n s) = take n (cstr s)"
  by (simp add: cstr_def takeWhile_take)

lemma bmarks_load_loop_line:
  "CR \<notin> set t \<Longrightarrow> LF \<notin> set t \<Longrightarrow> length bm < MAX_BOOKMARKS \<Longrightarrow> length buf \<le> 7 \<Longrightarrow>
   bmarks_load_loop vcount (t @ fs) buf bm = bmarks_load_loop vcount fs (take 7 (buf @ t)) bm"
proof (induction t arbitrary: buf)
  case Nil
  then show ?case by simp
next
  case (Cons c t)
  from Cons.prems have c: "c \<noteq> CR" "c \<noteq> LF" by auto
  show ?case
  proof (cases "length buf < 7")
    case True
    with Cons.prems c have "bmarks_load_loop vcount ((c # t) @ fs) buf bm =
        bmarks_load_loop vcount (t @ fs) (buf @ [c]) bm" by simp
    also from Cons.prems True have "\<dots> = bmarks_load_loop vcount fs (take 7 ((buf @ [c]) @ t)) bm"
      by (intro Cons.IH) auto
    finally show ?thesis by simp
  next
    case False
    with Cons.prems c have "bmarks_load_loop vcount ((c # t) @ fs) buf bm =
        bmarks_load_loop vcount (t @ fs) buf bm" by simp
    also from Cons.prems have "\<dots> = bmarks_load_loop vcount fs (take 7 (buf @ t)) bm"
      by (intro Cons.IH) auto
    finally show ?thesis using False Cons.prems by simp
  qed
qed

text \<open>
  C10 as it is stated fails on a line that is not a decimal integer but starts with
  one: \<open>atoi\<close> yields the number, not 0. With \<open>verse_count = 20\<close> the line \<open>12abc\<close> is
  kept as bookmark 12.
\<close>

theorem bmarks_load_number_prefix:
  "\<not> list_all isdigit ''12abc'' \<and> atoi ''12abc'' = 12 \<and>
   bmarks (bmarks_load (app0\<lparr>index := verses 20, bookmarks_txt := Some (''12abc'' @ [LF])\<rparr>)) = [12]"
  by code_simp

text \<open>
  C10, as the code has it. A non-empty line with no number at its start is not
  rejected: \<open>atoi\<close> of the (at most seven) bytes kept of it is 0, and the line is kept
  as a bookmark of verse id 0 whenever \<open>verse_count > 0\<close> and fewer than 75 bookmarks
  are loaded so far, whether a line end or the end of the file follows it.
\<close>

theorem bmarks_load_keeps_non_number:
  assumes "line \<noteq> []" and "CR \<notin> set line" and "LF \<notin> set line"
    and "\<not> has_number (cstr line)" and "0 < vcount" and "length bm < MAX_BOOKMARKS"
  shows "atoi (take 7 line) = 0 \<and>
         bmarks_load_loop vcount (line @ LF # rest) [] bm = bmarks_load_loop vcount rest [] (bm @ [0]) \<and>
         bmarks_load_loop vcount line [] bm = bm @ [0]"
proof -
  from assms(4) have "\<not> has_number (cstr (take 7 line))"
    by (auto simp: cstr_take dest: has_number_take)
  then have z: "atoi (take 7 line) = 0" by (rule atoi_no_number)
  from assms(1) have ne: "take 7 line \<noteq> []" by simp
  have add: "bmarks_add_parsed vcount (take 7 line) bm = bm @ [0]"
    using z assms(5) by (simp add: bmarks_add_parsed_def)
  have "bmarks_load_loop vcount (line @ LF # rest) [] bm =
        bmarks_load_loop vcount (LF # rest) (take 7 ([] @ line)) bm"
    using assms by (intro bmarks_load_loop_line) auto
  also have "\<dots> = bmarks_load_loop vcount rest [] (bm @ [0])"
    using assms(6) ne add by simp
  finally have a: "bmarks_load_loop vcount (line @ LF # rest) [] bm =
                   bmarks_load_loop vcount rest [] (bm @ [0])" .
  have "bmarks_load_loop vcount (line @ []) [] bm = bmarks_load_loop vcount [] (take 7 ([] @ line)) bm"
    using assms by (intro bmarks_load_loop_line) auto
  also have "\<dots> = bm @ [0]" using assms(6) ne add by simp
  finally have b: "bmarks_load_loop vcount line [] bm = bm @ [0]" by simp
  from z a b show ?thesis by simp
qed

theorem bmarks_load_keeps_non_number_witness:
  "''abc'' \<noteq> [] \<and> CR \<notin> set ''abc'' \<and> LF \<notin> set ''abc'' \<and> \<not> has_number (cstr ''abc'') \<and>
   (0 :: nat) < 1 \<and> length ([] :: nat list) < MAX_BOOKMARKS \<and>
   atoi (take 7 ''abc'') = 0 \<and> bmarks_load_loop 1 (''abc'' @ LF # []) [] [] = [0]"
proof -
  have h: "''abc'' \<noteq> []" "CR \<notin> set ''abc''" "LF \<notin> set ''abc''" "\<not> has_number (cstr ''abc'')"
    "(0 :: nat) < 1" "length ([] :: nat list) < MAX_BOOKMARKS"
    by (simp_all add: has_number_def cstr_def isspace_def isdigit_def MAX_BOOKMARKS_def)
  from bmarks_load_keeps_non_number [OF h, of "[]"] h show ?thesis
    by (simp add: MAX_BOOKMARKS_def)
qed

section \<open>Toggling bookmarks\<close>

lemma find_first_None: "find_first P xs = None \<longleftrightarrow> (\<forall>x \<in> set xs. \<not> P x)"
  by (induction xs) auto

lemma find_first_Some_eq:
  "find_first (\<lambda>y. y = x) xs = Some i \<Longrightarrow> take i xs @ drop (Suc i) xs = remove1 x xs"
proof (induction xs arbitrary: i)
  case Nil
  then show ?case by simp
next
  case (Cons a xs)
  then show ?case by (auto split: if_splits)
qed

lemma find_first_is_Some: "x \<in> set xs \<Longrightarrow> \<exists>i. find_first (\<lambda>y. y = x) xs = Some i"
  by (cases "find_first (\<lambda>y. y = x) xs") (auto simp: find_first_None)

lemma bmarks_bmarks_save [simp]: "bmarks (bmarks_save app) = bmarks app"
  by (simp add: bmarks_save_def)

lemma bmarks_toggle:
  "bmarks (toggle_bmark app x) =
     (if x \<in> set (bmarks app) then remove1 x (bmarks app)
      else if length (bmarks app) < MAX_BOOKMARKS then bmarks app @ [x] else bmarks app)"
proof (cases "find_first (\<lambda>y. y = x) (bmarks app)")
  case None
  then have "x \<notin> set (bmarks app)" by (auto simp: find_first_None)
  with None show ?thesis by (simp add: toggle_bmark_def)
next
  case (Some i)
  then have "x \<in> set (bmarks app)"
    using find_first_None [of "\<lambda>y. y = x" "bmarks app"] by auto
  with Some find_first_Some_eq [OF Some] show ?thesis by (simp add: toggle_bmark_def)
qed

lemma is_bookmarked_iff: "is_bookmarked app x \<longleftrightarrow> x \<in> set (bmarks app)"
  using find_first_None [of "\<lambda>y. y = x" "bmarks app"] by (auto simp: is_bookmarked_def)

lemma toggle_inv:
  "distinct (bmarks app) \<Longrightarrow> length (bmarks app) \<le> MAX_BOOKMARKS \<Longrightarrow>
   distinct (bmarks (toggle_bmark app x)) \<and> length (bmarks (toggle_bmark app x)) \<le> MAX_BOOKMARKS"
  by (auto simp: bmarks_toggle length_remove1)

lemma toggles_inv:
  "distinct (bmarks app) \<Longrightarrow> length (bmarks app) \<le> MAX_BOOKMARKS \<Longrightarrow>
   distinct (bmarks (foldl toggle_bmark app xs)) \<and> length (bmarks (foldl toggle_bmark app xs)) \<le> MAX_BOOKMARKS"
proof (induction xs arbitrary: app)
  case Nil
  then show ?case by simp
next
  case (Cons x xs)
  from toggle_inv [OF Cons.prems, of x] Cons.IH [of "toggle_bmark app x"] show ?case by simp
qed

lemma toggle_twice:
  assumes "distinct (bmarks app)" "length (bmarks app) \<le> MAX_BOOKMARKS"
  shows "is_bookmarked (toggle_bmark (toggle_bmark app x) x) x = is_bookmarked app x"
proof (cases "x \<in> set (bmarks app)")
  case True
  then have "length (bmarks app) > 0" by (cases "bmarks app") auto
  with assms(2) have "length (bmarks app) - 1 < MAX_BOOKMARKS" by arith
  with True have "length (remove1 x (bmarks app)) < MAX_BOOKMARKS"
    by (simp add: length_remove1)
  with True assms(1) show ?thesis by (simp add: is_bookmarked_iff bmarks_toggle)
next
  case False
  then show ?thesis by (simp add: is_bookmarked_iff bmarks_toggle remove1_append)
qed

lemma toggle_persists:
  assumes "storage_writable app" "bmarks (toggle_bmark app x) \<noteq> bmarks app"
  shows "bookmarks_txt (toggle_bmark app x) =
         Some (concat (map (\<lambda>v. show_dec v @ [LF]) (bmarks (toggle_bmark app x))))"
proof (cases "find_first (\<lambda>y. y = x) (bmarks app)")
  case None
  with assms show ?thesis by (auto simp: toggle_bmark_def bmarks_save_def split: if_splits)
next
  case (Some i)
  with assms show ?thesis by (simp add: toggle_bmark_def bmarks_save_def)
qed

text \<open>
  C6 as it is stated, for every bookmark state, fails on a list that holds an id twice,
  which \<open>bmarks_load\<close> builds from a file with a repeated line: each toggle removes one
  occurrence, so two toggles leave the verse unmarked that was marked before.
\<close>

theorem toggle_bmark_duplicate:
  "bmarks (bmarks_load (app0\<lparr>index := verses 10, bookmarks_txt := Some (''5'' @ [LF] @ ''5'' @ [LF])\<rparr>)) = [5, 5] \<and>
   is_bookmarked (app0\<lparr>bmarks := [5, 5]\<rparr>) 5 \<and>
   \<not> is_bookmarked (toggle_bmark (toggle_bmark (app0\<lparr>bmarks := [5, 5]\<rparr>) 5) 5) 5"
  by code_simp

text \<open>
  C6, as the code has it. For a bookmark list without repeated ids and of at most 75
  entries: toggling \<open>x\<close> twice restores whether \<open>x\<close> is bookmarked; after any sequence
  of toggles the list still has at most 75 entries and no repeated id; and a toggle that
  changes the list rewrites the bookmark file with the whole list, one \<open>%u\<close> line per id,
  when the file can be opened for writing.
\<close>

theorem toggle_bmark_involution:
  assumes "distinct (bmarks app)" and "length (bmarks app) \<le> MAX_BOOKMARKS"
  shows "is_bookmarked (toggle_bmark (toggle_bmark app x) x) x = is_bookmarked app x \<and>
         length (bmarks (foldl toggle_bmark app xs)) \<le> MAX_BOOKMARKS \<and> MAX_BOOKMARKS = 75 \<and>
         distinct (bmarks (foldl toggle_bmark app xs)) \<and>
         (storage_writable app \<and> bmarks (toggle_bmark app x) \<noteq> bmarks app \<longrightarrow>
            bookmarks_txt (toggle_bmark app x) =
              Some (concat (map (\<lambda>v. show_dec v @ [LF]) (bmarks (toggle_bmark app x)))))"
  using toggle_twice [OF assms] toggles_inv [OF assms] toggle_persists
  by (simp add: MAX_BOOKMARKS_def)

theorem toggle_bmark_involution_witness:
  "distinct (bmarks (app0\<lparr>bmarks := [3, 8]\<rparr>)) \<and> length (bmarks (app0\<lparr>bmarks := [3, 8]\<rparr>)) \<le> MAX_BOOKMARKS \<and>
   is_bookmarked (toggle_bmark (toggle_bmark (app0\<lparr>bmarks := [3, 8]\<rparr>) 8) 8) 8 \<and>
   length (bmarks (foldl toggle_bmark (app0\<lparr>bmarks := [3, 8]\<rparr>) [8, 5, 5, 2])) \<le> 75 \<and>
   bookmarks_txt (toggle_bmark (app0\<lparr>bmarks := [3, 8]\<rparr>) 8) = Some (''3'' @ [LF])"
proof -
  let ?a = "app0\<lparr>bmarks := [3, 8]\<rparr>"
  have h: "distinct (bmarks ?a)" "length (bmarks ?a) \<le> MAX_BOOKMARKS"
    by (simp_all add: app0_def MAX_BOOKMARKS_def)
  have i: "is_bookmarked ?a 8" by (simp add: is_bookmarked_def app0_def)
  have w: "storage_writable ?a" by (simp add: app0_def)
  have c: "bmarks (toggle_bmark ?a 8) = [3]" by (simp add: toggle_bmark_def app0_def)
  have s: "show_dec 3 = ''3''" by code_simp
  from toggle_bmark_involution [OF h, of 8 "[8, 5, 5, 2]"] h i w c s show ?thesis
    by (simp add: app0_def)
qed

section \<open>The reference picker\<close>

lemma length_tables:
  "length BIBLE_BOOKS = 66" "length VERSE_COUNT_OFFSET = 66" "length VERSE_COUNTS = 1189"
  by (simp_all add: BIBLE_BOOKS_def VERSE_COUNT_OFFSET_def VERSE_COUNTS_def)

lemma chapters_nth: "b < 66 \<Longrightarrow> chapters b = snd (BIBLE_BOOKS ! b)"
  by (simp add: chapters_def array_at_def length_tables)

lemma books_all: "list_all (\<lambda>bk. 1 \<le> snd bk \<and> snd bk \<le> 150) BIBLE_BOOKS"
  by (simp add: BIBLE_BOOKS_def)

lemma chapters_bounds: "b < 66 \<Longrightarrow> 1 \<le> chapters b \<and> chapters b \<le> 150"
  using books_all by (simp add: chapters_nth list_all_length length_tables)

lemma offsets_all:
  "list_all (\<lambda>(off, bk). off + snd bk \<le> 1189) (zip VERSE_COUNT_OFFSET BIBLE_BOOKS)"
  by (simp add: BIBLE_BOOKS_def VERSE_COUNT_OFFSET_def)

lemma offset_bound: "b < 66 \<Longrightarrow> VERSE_COUNT_OFFSET ! b + chapters b \<le> 1189"
  using offsets_all by (auto simp: chapters_nth list_all_length length_tables)

lemma counts_all: "list_all (\<lambda>v. 1 \<le> v \<and> v \<le> 176) VERSE_COUNTS"
  by (simp add: VERSE_COUNTS_def)

lemma book_chapter_verses_nth:
  assumes "b < 66" "1 \<le> c" "c \<le> chapters b"
  shows "book_chapter_verses b c = VERSE_COUNTS ! (VERSE_COUNT_OFFSET ! b + c - 1)"
    and "VERSE_COUNT_OFFSET ! b + c - 1 < 1189"
proof -
  from offset_bound [OF assms(1)] assms(2,3)
  show lt: "VERSE_COUNT_OFFSET ! b + c - 1 < 1189" by arith
  have "int (VERSE_COUNT_OFFSET ! b) + int c - 1 = int (VERSE_COUNT_OFFSET ! b + c - 1)"
    using assms(2) by simp
  with lt assms(1) show "book_chapter_verses b c = VERSE_COUNTS ! (VERSE_COUNT_OFFSET ! b + c - 1)"
    by (simp add: book_chapter_verses_def array_at_def length_tables del: of_nat_add of_nat_diff)
qed

lemma book_chapter_verses_bounds:
  assumes "b < 66" "1 \<le> c" "c \<le> chapters b"
  shows "1 \<le> book_chapter_verses b c \<and> book_chapter_verses b c \<le> 176"
  using counts_all book_chapter_verses_nth [OF assms]
  by (simp add: list_all_length length_tables)

lemma clamp_after_book:
  assumes "b < 66" and "1 \<le> api_chapter_sel app" and "1 \<le> api_verse_sel app"
  defines "X \<equiv> clamp_verse (clamp_chapter (app\<lparr>api_book_sel := b\<rparr>))"
  shows "api_book_sel X = b"
    and "api_chapter_sel X = min (api_chapter_sel app) (chapters b)"
    and "api_verse_sel X = min (api_verse_sel app) (book_chapter_verses b (api_chapter_sel X))"
    and "1 \<le> api_chapter_sel X \<and> api_chapter_sel X \<le> chapters b"
    and "1 \<le> api_verse_sel X \<and> api_verse_sel X \<le> book_chapter_verses b (api_chapter_sel X)"
    and "book_chapter_verses b (api_chapter_sel X) =
         VERSE_COUNTS ! (VERSE_COUNT_OFFSET ! b + api_chapter_sel X - 1)"
proof -
  show bk: "api_book_sel X = b"
    by (simp add: X_def clamp_verse_def clamp_chapter_def)
  show ch: "api_chapter_sel X = min (api_chapter_sel app) (chapters b)"
    by (simp add: X_def clamp_verse_def clamp_chapter_def min_def)
  show vs: "api_verse_sel X = min (api_verse_sel app) (book_chapter_verses b (api_chapter_sel X))"
    by (simp add: X_def clamp_verse_def clamp_chapter_def min_def)
  from chapters_bounds [OF assms(1)] assms(2) ch
  show cb: "1 \<le> api_chapter_sel X \<and> api_chapter_sel X \<le> chapters b" by simp
  from book_chapter_verses_bounds [OF assms(1)] cb assms(3) vs
  show "1 \<le> api_verse_sel X \<and> api_verse_sel X \<le> book_chapter_verses b (api_chapter_sel X)"
    by simp
  from book_chapter_verses_nth(1) [OF assms(1)] cb
  show "book_chapter_verses b (api_chapter_sel X) =
         VERSE_COUNTS ! (VERSE_COUNT_OFFSET ! b + api_chapter_sel X - 1)" by simp
qed

lemma left_book:
  "api_menu_sel app = 1 \<Longrightarrow> on_api_menu_left app =
     clamp_verse (clamp_chapter (app\<lparr>api_book_sel := (if api_book_sel app = 0 then 65 else api_book_sel app - 1)\<rparr>))"
  by (simp add: on_api_menu_left_def BIBLE_BOOKS_COUNT_def)

lemma right_book:
  "api_menu_sel app = 1 \<Longrightarrow> api_book_sel app < 66 \<Longrightarrow> on_api_menu_right app =
     clamp_verse (clamp_chapter (app\<lparr>api_book_sel := (if api_book_sel app = 65 then 0 else api_book_sel app + 1)\<rparr>))"
  by (auto simp: on_api_menu_right_def BIBLE_BOOKS_COUNT_def)

lemma table_values:
  "chapters 0 = 50" "book_chapter_verses 0 1 = 31" "book_chapter_verses 0 (Suc 0) = 31"
  "chapters 18 = 150" "chapters 7 = 4"
  "book_chapter_verses 7 4 = 22"
  "fst (BIBLE_BOOKS ! 0) = ''Genesis''" "fst (BIBLE_BOOKS ! 18) = ''Psalms''"
  "fst (BIBLE_BOOKS ! 7) = ''Ruth''"
  by (simp_all add: book_chapter_verses_def chapters_def array_at_def BIBLE_BOOKS_def
      VERSE_COUNT_OFFSET_def VERSE_COUNTS_def)

lemma picker_parts:
  assumes "api_menu_sel app = 1" and "api_book_sel app < BIBLE_BOOKS_COUNT"
    and "1 \<le> api_chapter_sel app" and "1 \<le> api_verse_sel app"
    and "X = on_api_menu_left app \<or> X = on_api_menu_right app"
  shows "api_book_sel (on_api_menu_left app) =
           (if api_book_sel app = 0 then 65 else api_book_sel app - 1)"
    and "api_book_sel (on_api_menu_right app) =
           (if api_book_sel app = 65 then 0 else api_book_sel app + 1)"
    and "api_chapter_sel X = min (api_chapter_sel app) (chapters (api_book_sel X))"
    and "api_verse_sel X =
           min (api_verse_sel app) (book_chapter_verses (api_book_sel X) (api_chapter_sel X))"
    and "1 \<le> api_chapter_sel X \<and> api_chapter_sel X \<le> chapters (api_book_sel X)"
    and "1 \<le> api_verse_sel X \<and>
         api_verse_sel X \<le> book_chapter_verses (api_book_sel X) (api_chapter_sel X)"
    and "book_chapter_verses (api_book_sel X) (api_chapter_sel X) =
           VERSE_COUNTS ! (VERSE_COUNT_OFFSET ! api_book_sel X + api_chapter_sel X - 1)"
    and "fst (BIBLE_BOOKS ! 0) = ''Genesis'' \<and> fst (BIBLE_BOOKS ! 18) = ''Psalms'' \<and>
         fst (BIBLE_BOOKS ! 7) = ''Ruth''"
    and "api_chapter_sel (on_api_menu_left
           (a\<lparr>api_menu_sel := 2, api_book_sel := 0, api_chapter_sel := 1\<rparr>)) = 50"
    and "api_verse_sel (on_api_menu_left
           (a\<lparr>api_menu_sel := 3, api_book_sel := 0, api_chapter_sel := 1, api_verse_sel := 1\<rparr>)) = 31"
    and "api_book_sel (on_api_menu_right
           (a\<lparr>api_menu_sel := 1, api_book_sel := 17, api_chapter_sel := 40\<rparr>)) = 18 \<and>
         api_chapter_sel (on_api_menu_right
           (a\<lparr>api_menu_sel := 1, api_book_sel := 17, api_chapter_sel := 40\<rparr>)) = 40 \<and>
         api_book_sel (on_api_menu_left
           (a\<lparr>api_menu_sel := 1, api_book_sel := 19, api_chapter_sel := 40\<rparr>)) = 18 \<and>
         api_chapter_sel (on_api_menu_left
           (a\<lparr>api_menu_sel := 1, api_book_sel := 19, api_chapter_sel := 40\<rparr>)) = 40"
    and "api_book_sel (on_api_menu_right
           (a\<lparr>api_menu_sel := 1, api_book_sel := 6, api_chapter_sel := 40\<rparr>)) = 7 \<and>
         api_chapter_sel (on_api_menu_right
           (a\<lparr>api_menu_sel := 1, api_book_sel := 6, api_chapter_sel := 40\<rparr>)) = 4 \<and>
         api_verse_sel (on_api_menu_right
           (a\<lparr>api_menu_sel := 1, api_book_sel := 6, api_chapter_sel := 40\<rparr>)) =
           min (api_verse_sel a) 22 \<and>
         book_chapter_verses 7 4 = 22"
proof -
  let ?l = "if api_book_sel app = 0 then 65 else api_book_sel app - 1"
  let ?r = "if api_book_sel app = 65 then 0 else api_book_sel app + 1"
  from assms(2) have lb: "?l < 66" and rb: "?r < 66" by (auto simp: BIBLE_BOOKS_COUNT_def)
  from assms(2) have b66: "api_book_sel app < 66" by (simp add: BIBLE_BOOKS_COUNT_def)
  have c: "1 \<le> api_chapter_sel app" "1 \<le> api_verse_sel app" by (rule assms(3), rule assms(4))
  have l: "on_api_menu_left app = clamp_verse (clamp_chapter (app\<lparr>api_book_sel := ?l\<rparr>))"
    by (rule left_book [OF assms(1)])
  have r: "on_api_menu_right app = clamp_verse (clamp_chapter (app\<lparr>api_book_sel := ?r\<rparr>))"
    by (rule right_book [OF assms(1) b66])
  show "api_book_sel (on_api_menu_left app) = ?l"
    unfolding l by (rule clamp_after_book(1) [OF lb c])
  show "api_book_sel (on_api_menu_right app) = ?r"
    unfolding r by (rule clamp_after_book(1) [OF rb c])
  from assms(5) l r lb rb
  obtain b where b: "b < 66" and X: "X = clamp_verse (clamp_chapter (app\<lparr>api_book_sel := b\<rparr>))"
    by metis
  note K = clamp_after_book [OF b c, folded X]
  show "api_chapter_sel X = min (api_chapter_sel app) (chapters (api_book_sel X))"
    unfolding K(1) by (rule K(2))
  show "api_verse_sel X =
           min (api_verse_sel app) (book_chapter_verses (api_book_sel X) (api_chapter_sel X))"
    unfolding K(1) by (rule K(3))
  show "1 \<le> api_chapter_sel X \<and> api_chapter_sel X \<le> chapters (api_book_sel X)"
    unfolding K(1) by (rule K(4))
  show "1 \<le> api_verse_sel X \<and>
         api_verse_sel X \<le> book_chapter_verses (api_book_sel X) (api_chapter_sel X)"
    unfolding K(1) by (rule K(5))
  show "book_chapter_verses (api_book_sel X) (api_chapter_sel X) =
           VERSE_COUNTS ! (VERSE_COUNT_OFFSET ! api_book_sel X + api_chapter_sel X - 1)"
    unfolding K(1) by (rule K(6))
  show "fst (BIBLE_BOOKS ! 0) = ''Genesis'' \<and> fst (BIBLE_BOOKS ! 18) = ''Psalms'' \<and>
         fst (BIBLE_BOOKS ! 7) = ''Ruth''" by (simp add: table_values)
  show "api_chapter_sel (on_api_menu_left
           (a\<lparr>api_menu_sel := 2, api_book_sel := 0, api_chapter_sel := 1\<rparr>)) = 50"
    by (simp add: on_api_menu_left_def clamp_verse_def table_values)
  show "api_verse_sel (on_api_menu_left
           (a\<lparr>api_menu_sel := 3, api_book_sel := 0, api_chapter_sel := 1, api_verse_sel := 1\<rparr>)) = 31"
    by (simp add: on_api_menu_left_def table_values)
  show "api_book_sel (on_api_menu_right
           (a\<lparr>api_menu_sel := 1, api_book_sel := 17, api_chapter_sel := 40\<rparr>)) = 18 \<and>
         api_chapter_sel (on_api_menu_right
           (a\<lparr>api_menu_sel := 1, api_book_sel := 17, api_chapter_sel := 40\<rparr>)) = 40 \<and>
         api_book_sel (on_api_menu_left
           (a\<lparr>api_menu_sel := 1, api_book_sel := 19, api_chapter_sel := 40\<rparr>)) = 18 \<and>
         api_chapter_sel (on_api_menu_left
           (a\<lparr>api_menu_sel := 1, api_book_sel := 19, api_chapter_sel := 40\<rparr>)) = 40"
    by (simp add: on_api_menu_right_def on_api_menu_left_def clamp_verse_def clamp_chapter_def
        BIBLE_BOOKS_COUNT_def table_values)
  show "api_book_sel (on_api_menu_right
           (a\<lparr>api_menu_sel := 1, api_book_sel := 6, api_chapter_sel := 40\<rparr>)) = 7 \<and>
         api_chapter_sel (on_api_menu_right
           (a\<lparr>api_menu_sel := 1, api_book_sel := 6, api_chapter_sel := 40\<rparr>)) = 4 \<and>
         api_verse_sel (on_api_menu_right
           (a\<lparr>api_menu_sel := 1, api_book_sel := 6, api_chapter_sel := 40\<rparr>)) =
           min (api_verse_sel a) 22 \<and>
         book_chapter_verses 7 4 = 22"
    by (simp add: on_api_menu_right_def clamp_verse_def clamp_chapter_def
        BIBLE_BOOKS_COUNT_def table_values min_def)
qed

text \<open>
  C8. With the book row selected, a book index below 66 and chapter and verse at least
  1, a step left or right (\<open>X\<close> is the state after either) moves the book index by one,
  wrapping at both ends, and then caps the chapter at the chapters of the new book and
  the verse at the verses of the new book and chapter, which leaves both within their
  ranges from 1; the verse count is read from \<open>VERSE_COUNTS\<close> at the offset of the book
  plus the chapter less one. In Genesis a step left from chapter 1 gives chapter 50 and a
  step left from verse 1 of chapter 1 gives verse 31; moving to Psalms keeps chapter 40;
  moving to Ruth with chapter 40 gives chapter 4 and caps the verse at 22.
\<close>

theorem picker_step:
  assumes "api_menu_sel app = 1" and "api_book_sel app < BIBLE_BOOKS_COUNT"
    and "1 \<le> api_chapter_sel app" and "1 \<le> api_verse_sel app"
    and "X = on_api_menu_left app \<or> X = on_api_menu_right app"
  shows
   "(api_book_sel (on_api_menu_left app) =
           (if api_book_sel app = 0 then 65 else api_book_sel app - 1)) \<and>
    (api_book_sel (on_api_menu_right app) =
           (if api_book_sel app = 65 then 0 else api_book_sel app + 1)) \<and>
    (api_chapter_sel X = min (api_chapter_sel app) (chapters (api_book_sel X))) \<and>
    (api_verse_sel X =
           min (api_verse_sel app) (book_chapter_verses (api_book_sel X) (api_chapter_sel X))) \<and>
    (1 \<le> api_chapter_sel X \<and> api_chapter_sel X \<le> chapters (api_book_sel X)) \<and>
    (1 \<le> api_verse_sel X \<and>
         api_verse_sel X \<le> book_chapter_verses (api_book_sel X) (api_chapter_sel X)) \<and>
    (book_chapter_verses (api_book_sel X) (api_chapter_sel X) =
           VERSE_COUNTS ! (VERSE_COUNT_OFFSET ! api_book_sel X + api_chapter_sel X - 1)) \<and>
    (fst (BIBLE_BOOKS ! 0) = ''Genesis'' \<and> fst (BIBLE_BOOKS ! 18) = ''Psalms'' \<and>
         fst (BIBLE_BOOKS ! 7) = ''Ruth'') \<and>
    (api_chapter_sel (on_api_menu_left
           (a\<lparr>api_menu_sel := 2, api_book_sel := 0, api_chapter_sel := 1\<rparr>)) = 50) \<and>
    (api_verse_sel (on_api_menu_left
           (a\<lparr>api_menu_sel := 3, api_book_sel := 0, api_chapter_sel := 1, api_verse_sel := 1\<rparr>)) = 31) \<and>
    (api_book_sel (on_api_menu_right
           (a\<lparr>api_menu_sel := 1, api_book_sel := 17, api_chapter_sel := 40\<rparr>)) = 18 \<and>
         api_chapter_sel (on_api_menu_right
           (a\<lparr>api_menu_sel := 1, api_book_sel := 17, api_chapter_sel := 40\<rparr>)) = 40 \<and>
         api_book_sel (on_api_menu_left
           (a\<lparr>api_menu_sel := 1, api_book_sel := 19, api_chapter_sel := 40\<rparr>)) = 18 \<and>
         api_chapter_sel (on_api_menu_left
           (a\<lparr>api_menu_sel := 1, api_book_sel := 19, api_chapter_sel := 40\<rparr>)) = 40) \<and>
    (api_book_sel (on_api_menu_right
           (a\<lparr>api_menu_sel := 1, api_book_sel := 6, api_chapter_sel := 40\<rparr>)) = 7 \<and>
         api_chapter_sel (on_api_menu_right
           (a\<lparr>api_menu_sel := 1, api_book_sel := 6, api_chapter_sel := 40\<rparr>)) = 4 \<and>
         api_verse_sel (on_api_menu_right
           (a\<lparr>api_menu_sel := 1, api_book_sel := 6, api_chapter_sel := 40\<rparr>)) =
           min (api_verse_sel a) 22 \<and>
         book_chapter_verses 7 4 = 22)"
proof -
  note P = picker_parts [OF assms]
  show ?thesis by (rule P | rule conjI)+
qed

theorem picker_step_witness:
  "api_menu_sel (app0\<lparr>api_menu_sel := 1, api_book_sel := 65, api_chapter_sel := 22, api_verse_sel := 40\<rparr>) = 1 \<and>
   api_book_sel (app0\<lparr>api_menu_sel := 1, api_book_sel := 65, api_chapter_sel := 22, api_verse_sel := 40\<rparr>) < BIBLE_BOOKS_COUNT \<and>
   api_book_sel (on_api_menu_right
     (app0\<lparr>api_menu_sel := 1, api_book_sel := 65, api_chapter_sel := 22, api_verse_sel := 40\<rparr>)) = 0 \<and>
   api_verse_sel (on_api_menu_right
     (app0\<lparr>api_menu_sel := 1, api_book_sel := 65, api_chapter_sel := 22, api_verse_sel := 40\<rparr>)) \<le>
     book_chapter_verses 0 22 \<and>
   api_chapter_sel (on_api_menu_right
     (app0\<lparr>api_menu_sel := 1, api_book_sel := 65, api_chapter_sel := 22, api_verse_sel := 40\<rparr>)) = 22"
proof -
  let ?a = "app0\<lparr>api_menu_sel := 1, api_book_sel := 65, api_chapter_sel := 22, api_verse_sel := 40\<rparr>"
  have h: "api_menu_sel ?a = 1" "api_book_sel ?a < BIBLE_BOOKS_COUNT" "1 \<le> api_chapter_sel ?a"
    "1 \<le> api_verse_sel ?a" "on_api_menu_right ?a = on_api_menu_left ?a \<or> on_api_menu_right ?a = on_api_menu_right ?a"
    by (simp_all add: BIBLE_BOOKS_COUNT_def)
  have c: "chapters 0 = 50" by (rule table_values)
  from picker_step [OF h] h c show ?thesis by simp
qed

section \<open>Search\<close>

lemma icontains_inner_iff:
  "icontains_inner hay needle i j \<longleftrightarrow>
   (\<forall>k. j \<le> k \<and> k < length needle \<longrightarrow> lower (hay ! (i + k)) = lower (needle ! k))"
proof (induction hay needle i j rule: icontains_inner.induct)
  case (1 hay needle i j)
  show ?case
  proof (cases "j < length needle")
    case False
    then show ?thesis by (subst icontains_inner.simps) auto
  next
    case True
    note lt = True
    show ?thesis
    proof (cases "lower (hay ! (i + j)) = lower (needle ! j)")
      case False
      with lt show ?thesis by (subst icontains_inner.simps) auto
    next
      case True
      have "icontains_inner hay needle i j = icontains_inner hay needle i (j + 1)"
        using lt True by (subst icontains_inner.simps) simp
      also have "\<dots> \<longleftrightarrow> (\<forall>k. j + 1 \<le> k \<and> k < length needle \<longrightarrow>
                      lower (hay ! (i + k)) = lower (needle ! k))"
        using lt True by (intro "1.IH") auto
      also have "\<dots> \<longleftrightarrow> (\<forall>k. j \<le> k \<and> k < length needle \<longrightarrow>
                      lower (hay ! (i + k)) = lower (needle ! k))"
      proof (intro iffI allI impI)
        fix k
        assume a: "\<forall>k. j + 1 \<le> k \<and> k < length needle \<longrightarrow> lower (hay ! (i + k)) = lower (needle ! k)"
          and k: "j \<le> k \<and> k < length needle"
        show "lower (hay ! (i + k)) = lower (needle ! k)"
        proof (cases "k = j")
          case True
          with \<open>lower (hay ! (i + j)) = lower (needle ! j)\<close> show ?thesis by simp
        next
          case False
          with k a show ?thesis by auto
        qed
      next
        fix k
        assume a: "\<forall>k. j \<le> k \<and> k < length needle \<longrightarrow> lower (hay ! (i + k)) = lower (needle ! k)"
          and k: "j + 1 \<le> k \<and> k < length needle"
        then show "lower (hay ! (i + k)) = lower (needle ! k)" by auto
      qed
      finally show ?thesis .
    qed
  qed
qed

lemma icontains_outer_iff:
  "icontains_outer hay needle i \<longleftrightarrow>
   (\<exists>m. i \<le> m \<and> m \<le> length hay - length needle \<and> icontains_inner hay needle m 0)"
proof (induction hay needle i rule: icontains_outer.induct)
  case (1 hay needle i)
  show ?case
  proof (cases "i \<le> length hay - length needle")
    case False
    then show ?thesis by (subst icontains_outer.simps) auto
  next
    case True
    note le = True
    show ?thesis
    proof (cases "icontains_inner hay needle i 0")
      case True
      with le show ?thesis by (subst icontains_outer.simps) auto
    next
      case False
      have "icontains_outer hay needle i = icontains_outer hay needle (i + 1)"
        using le False by (subst icontains_outer.simps) simp
      also have "\<dots> \<longleftrightarrow> (\<exists>m. i + 1 \<le> m \<and> m \<le> length hay - length needle \<and> icontains_inner hay needle m 0)"
        using le False by (intro "1.IH") auto
      also have "\<dots> \<longleftrightarrow> (\<exists>m. i \<le> m \<and> m \<le> length hay - length needle \<and> icontains_inner hay needle m 0)"
      proof (intro iffI)
        assume "\<exists>m. i + 1 \<le> m \<and> m \<le> length hay - length needle \<and> icontains_inner hay needle m 0"
        then obtain m where "i + 1 \<le> m" "m \<le> length hay - length needle" "icontains_inner hay needle m 0"
          by blast
        then show "\<exists>m. i \<le> m \<and> m \<le> length hay - length needle \<and> icontains_inner hay needle m 0"
          by (intro exI [of _ m]) simp
      next
        assume "\<exists>m. i \<le> m \<and> m \<le> length hay - length needle \<and> icontains_inner hay needle m 0"
        then obtain m where m: "i \<le> m" "m \<le> length hay - length needle" "icontains_inner hay needle m 0"
          by blast
        with False have "m \<noteq> i" by auto
        with m show "\<exists>m. i + 1 \<le> m \<and> m \<le> length hay - length needle \<and> icontains_inner hay needle m 0"
          by (intro exI [of _ m]) simp
      qed
      finally show ?thesis .
    qed
  qed
qed

lemma match_at_sublist:
  assumes "m + length n \<le> length h"
  shows "(\<forall>k < length n. f (h ! (m + k)) = f (n ! k)) \<longleftrightarrow> take (length n) (drop m (map f h)) = map f n"
proof
  assume a: "\<forall>k < length n. f (h ! (m + k)) = f (n ! k)"
  show "take (length n) (drop m (map f h)) = map f n"
    using assms a by (intro nth_equalityI) auto
next
  assume e: "take (length n) (drop m (map f h)) = map f n"
  show "\<forall>k < length n. f (h ! (m + k)) = f (n ! k)"
  proof (intro allI impI)
    fix k assume k: "k < length n"
    from e have "take (length n) (drop m (map f h)) ! k = map f n ! k" by simp
    with k assms show "f (h ! (m + k)) = f (n ! k)" by simp
  qed
qed

lemma sublist_iff_take_drop:
  "sublist xs ys \<longleftrightarrow> (\<exists>m. m + length xs \<le> length ys \<and> take (length xs) (drop m ys) = xs)"
proof
  assume "sublist xs ys"
  then obtain ps ss where "ys = ps @ xs @ ss" by (auto simp: sublist_def)
  then show "\<exists>m. m + length xs \<le> length ys \<and> take (length xs) (drop m ys) = xs"
    by (intro exI [of _ "length ps"]) simp
next
  assume "\<exists>m. m + length xs \<le> length ys \<and> take (length xs) (drop m ys) = xs"
  then obtain m where m: "m + length xs \<le> length ys" "take (length xs) (drop m ys) = xs" by blast
  have "ys = take m ys @ take (length xs) (drop m ys) @ drop (length xs) (drop m ys)"
    by (simp only: append_take_drop_id)
  with m(2) have "ys = take m ys @ xs @ drop (length xs) (drop m ys)" by simp
  then show "sublist xs ys" unfolding sublist_def by blast
qed

lemma icontains_iff:
  "icontains hay needle \<longleftrightarrow>
   cstr needle \<noteq> [] \<and> sublist (map lower (cstr needle)) (map lower (cstr hay))"
proof (cases "cstr needle = [] \<or> length (cstr needle) > length (cstr hay)")
  case True
  then show ?thesis
  proof
    assume "cstr needle = []" then show ?thesis by (simp add: icontains_def)
  next
    assume l: "length (cstr needle) > length (cstr hay)"
    have "\<not> sublist (map lower (cstr needle)) (map lower (cstr hay))"
    proof
      assume "sublist (map lower (cstr needle)) (map lower (cstr hay))"
      from sublist_length_le [OF this] l show False by simp
    qed
    with l show ?thesis by (simp add: icontains_def)
  qed
next
  case False
  let ?h = "cstr hay" and ?n = "cstr needle"
  from False have ne: "?n \<noteq> []" and le: "length ?n \<le> length ?h" by auto
  have "icontains hay needle \<longleftrightarrow> icontains_outer ?h ?n 0"
    using ne le by (simp add: icontains_def)
  also have "\<dots> \<longleftrightarrow> (\<exists>m. m \<le> length ?h - length ?n \<and>
       (\<forall>k < length ?n. lower (?h ! (m + k)) = lower (?n ! k)))"
    by (simp add: icontains_outer_iff icontains_inner_iff)
  also have "\<dots> \<longleftrightarrow> (\<exists>m. m + length ?n \<le> length ?h \<and>
       take (length ?n) (drop m (map lower ?h)) = map lower ?n)"
  proof (intro iff_exI)
    fix m
    show "(m \<le> length ?h - length ?n \<and> (\<forall>k < length ?n. lower (?h ! (m + k)) = lower (?n ! k))) \<longleftrightarrow>
          (m + length ?n \<le> length ?h \<and> take (length ?n) (drop m (map lower ?h)) = map lower ?n)"
    proof (cases "m + length ?n \<le> length ?h")
      case True
      with match_at_sublist [OF True, of lower] le show ?thesis by auto
    next
      case False
      with le show ?thesis by auto
    qed
  qed
  also have "\<dots> \<longleftrightarrow> sublist (map lower ?n) (map lower ?h)"
    using sublist_iff_take_drop [of "map lower ?n" "map lower ?h"] by simp
  finally show ?thesis using ne by simp
qed

lemma sublist_cstr: "sublist xs (map f (cstr l)) \<Longrightarrow> sublist xs (map f l)"
proof -
  assume a: "sublist xs (map f (cstr l))"
  have "l = cstr l @ dropWhile (\<lambda>c. c \<noteq> NUL) l" by (simp add: cstr_def)
  then have "map f l = map f (cstr l) @ map f (dropWhile (\<lambda>c. c \<noteq> NUL) l)"
    by (metis map_append)
  with a show ?thesis by (metis sublist_appendI sublist_order.order_trans prefix_imp_sublist prefixI)
qed

lemma do_search_loop_full:
  "\<not> (verse_num < vcount \<and> length hs < MAX_SEARCH_RESULTS) \<Longrightarrow>
   do_search_loop vcount needle fs verse_num hs = (hs, fs)"
  by (subst do_search_loop.simps) auto

lemma do_search_loop_step:
  "verse_num < vcount \<Longrightarrow> length hs < MAX_SEARCH_RESULTS \<Longrightarrow>
   read_line LINE_BUF_LEN [] fs = (line, fs') \<Longrightarrow>
   do_search_loop vcount needle fs verse_num hs =
     (if line = [] then
        (case fs' of [] \<Rightarrow> (hs, [])
         | ch # fs'' \<Rightarrow> do_search_loop vcount needle fs'' verse_num hs)
      else do_search_loop vcount needle fs' (verse_num + 1)
             (if icontains line needle then hs @ [verse_num] else hs))"
  by (subst do_search_loop.simps) simp

lemma search_lines_step:
  "read_line LINE_BUF_LEN [] fs = (line, fs') \<Longrightarrow>
   search_lines fs =
     (if line = [] then (case fs' of [] \<Rightarrow> [] | ch # fs'' \<Rightarrow> search_lines fs'')
      else line # search_lines fs')"
  by (subst search_lines.simps) simp

lemma do_search_loop_hits:
  "do_search_loop vcount needle fs n hs = (hs', r) \<Longrightarrow>
   \<exists>new. hs' = hs @ new \<and> sorted_wrt (<) new \<and> length hs' \<le> max (length hs) MAX_SEARCH_RESULTS \<and>
     (\<forall>k \<in> set new. n \<le> k \<and> k < vcount \<and> k - n < length (search_lines fs) \<and>
        icontains (search_lines fs ! (k - n)) needle)"
proof (induction vcount needle fs n hs arbitrary: hs' r rule: do_search_loop.induct)
  case (1 vcount needle fs n hs)
  show ?case
  proof (cases "n < vcount \<and> length hs < MAX_SEARCH_RESULTS")
    case False
    with "1.prems" have "hs' = hs" by (simp add: do_search_loop_full)
    then show ?thesis by simp
  next
    case True
    note guard = True
    then have g: "n < vcount" "length hs < MAX_SEARCH_RESULTS" by simp_all
    obtain line fs' where rd: "read_line LINE_BUF_LEN [] fs = (line, fs')"
      by (cases "read_line LINE_BUF_LEN [] fs") auto
    note step = do_search_loop_step [OF g rd, of needle]
    note sl = search_lines_step [OF rd]
    show ?thesis
    proof (cases "line = []")
      case True
      note blank = True
      show ?thesis
      proof (cases fs')
        case Nil
        with "1.prems" step blank have "hs' = hs" by simp
        then show ?thesis by simp
      next
        case (Cons ch fs'')
        with "1.prems" step blank have run: "do_search_loop vcount needle fs'' n hs = (hs', r)" by simp
        from "1.IH"(1) [OF guard rd [symmetric] blank Cons run]
        show ?thesis using sl blank Cons by simp
      qed
    next
      case False
      let ?hs = "if icontains line needle then hs @ [n] else hs"
      from "1.prems" step False
      have run: "do_search_loop vcount needle fs' (n + 1) ?hs = (hs', r)" by simp
      from "1.IH"(2) [OF guard rd [symmetric] False run]
      obtain new where new: "hs' = ?hs @ new" "sorted_wrt (<) new"
        "length hs' \<le> max (length ?hs) MAX_SEARCH_RESULTS"
        "\<forall>k \<in> set new. n + 1 \<le> k \<and> k < vcount \<and> k - (n + 1) < length (search_lines fs') \<and>
            icontains (search_lines fs' ! (k - (n + 1))) needle"
        by blast
      have sl': "search_lines fs = line # search_lines fs'" using sl False by simp
      have old: "\<forall>k \<in> set new. n \<le> k \<and> k < vcount \<and> k - n < length (search_lines fs) \<and>
            icontains (search_lines fs ! (k - n)) needle"
      proof
        fix k assume "k \<in> set new"
        with new(4) have k: "n + 1 \<le> k" "k < vcount" "k - (n + 1) < length (search_lines fs')"
          "icontains (search_lines fs' ! (k - (n + 1))) needle" by auto
        from k(1) have "k - n = Suc (k - (n + 1))" by simp
        with k sl' show "n \<le> k \<and> k < vcount \<and> k - n < length (search_lines fs) \<and>
            icontains (search_lines fs ! (k - n)) needle" by simp
      qed
      have len: "length hs' \<le> max (length hs) MAX_SEARCH_RESULTS"
        using new(3) g(2) by (auto split: if_splits)
      show ?thesis
      proof (cases "icontains line needle")
        case True
        have "sorted_wrt (<) (n # new)" using new(2,4) by auto
        moreover have "hs' = hs @ (n # new)" using new(1) True by simp
        moreover have "\<forall>k \<in> set (n # new). n \<le> k \<and> k < vcount \<and> k - n < length (search_lines fs) \<and>
            icontains (search_lines fs ! (k - n)) needle"
          using old True g(1) sl' by simp
        ultimately show ?thesis using len by blast
      next
        case False
        with new(1) have "hs' = hs @ new" by simp
        with new(2) old len show ?thesis by blast
      qed
    qed
  qed
qed

lemma read_line_piece:
  "read_line buf_sz buf fs = (l, fs') \<Longrightarrow>
   \<exists>mid sep. l = buf @ mid \<and> LF \<notin> set mid \<and>
     filter (\<lambda>c. c \<noteq> CR) fs = mid @ sep @ filter (\<lambda>c. c \<noteq> CR) fs'"
proof (induction buf_sz buf fs rule: read_line.induct)
  case (1 buf_sz line)
  then show ?case by simp
next
  case (2 buf_sz line ch fs)
  show ?case
  proof (cases "length line < buf_sz - 1")
    case False
    with "2.prems" have "l = line" "fs' = ch # fs" by simp_all
    then show ?thesis by simp
  next
    case True
    note room = True
    show ?thesis
    proof (cases "ch = CR")
      case True
      with room "2.prems" have "read_line buf_sz line fs = (l, fs')" by simp
      from "2.IH"(1) [OF room True this] True show ?thesis by simp
    next
      case False
      note nocr = False
      show ?thesis
      proof (cases "ch = LF")
        case True
        with room nocr "2.prems" have "l = line" "fs' = fs" by simp_all
        with True have "l = line @ [] \<and> LF \<notin> set [] \<and>
          filter (\<lambda>c. c \<noteq> CR) (ch # fs) = [] @ [LF] @ filter (\<lambda>c. c \<noteq> CR) fs'" by simp
        then show ?thesis by blast
      next
        case False
        with room nocr "2.prems" have "read_line buf_sz (line @ [ch]) fs = (l, fs')" by simp
        from "2.IH"(2) [OF room nocr False this]
        obtain mid sep where m: "l = (line @ [ch]) @ mid" "LF \<notin> set mid"
          "filter (\<lambda>c. c \<noteq> CR) fs = mid @ sep @ filter (\<lambda>c. c \<noteq> CR) fs'" by blast
        with nocr False have "l = line @ (ch # mid) \<and> LF \<notin> set (ch # mid) \<and>
          filter (\<lambda>c. c \<noteq> CR) (ch # fs) = (ch # mid) @ sep @ filter (\<lambda>c. c \<noteq> CR) fs'" by simp
        then show ?thesis by blast
      qed
    qed
  qed
qed

lemma search_lines_piece:
  "l \<in> set (search_lines fs) \<Longrightarrow>
   LF \<notin> set l \<and> sublist l (filter (\<lambda>c. c \<noteq> CR) fs)"
proof (induction fs rule: search_lines.induct)
  case (1 fs)
  obtain line fs' where rd: "read_line LINE_BUF_LEN [] fs = (line, fs')"
    by (cases "read_line LINE_BUF_LEN [] fs") auto
  from read_line_piece [OF rd] obtain sep where p: "LF \<notin> set line"
    "filter (\<lambda>c. c \<noteq> CR) fs = line @ sep @ filter (\<lambda>c. c \<noteq> CR) fs'" by auto
  note sl = search_lines_step [OF rd]
  show ?case
  proof (cases "line = []")
    case True
    note blank = True
    show ?thesis
    proof (cases fs')
      case Nil
      with "1.prems" sl blank show ?thesis by simp
    next
      case (Cons ch fs'')
      with "1.prems" sl blank have "l \<in> set (search_lines fs'')" by simp
      from "1.IH"(1) [OF rd [symmetric] blank Cons this]
      obtain ps ss where "LF \<notin> set l" "filter (\<lambda>c. c \<noteq> CR) fs'' = ps @ l @ ss"
        by (auto simp: sublist_def)
      with p(2) Cons blank
      have "LF \<notin> set l \<and> filter (\<lambda>c. c \<noteq> CR) fs = (sep @ filter (\<lambda>c. c \<noteq> CR) [ch] @ ps) @ l @ ss"
        by simp
      then show ?thesis unfolding sublist_def by blast
    qed
  next
    case False
    with "1.prems" sl have "l = line \<or> l \<in> set (search_lines fs')" by auto
    then show ?thesis
    proof
      assume "l = line"
      with p have "LF \<notin> set l \<and> filter (\<lambda>c. c \<noteq> CR) fs = [] @ l @ (sep @ filter (\<lambda>c. c \<noteq> CR) fs')"
        by simp
      then show ?thesis unfolding sublist_def by blast
    next
      assume "l \<in> set (search_lines fs')"
      from "1.IH"(2) [OF rd [symmetric] False this]
      obtain ps ss where "LF \<notin> set l" "filter (\<lambda>c. c \<noteq> CR) fs' = ps @ l @ ss"
        by (auto simp: sublist_def)
      with p(2) have "LF \<notin> set l \<and> filter (\<lambda>c. c \<noteq> CR) fs = (line @ sep @ ps) @ l @ ss" by simp
      then show ?thesis unfolding sublist_def by blast
    qed
  qed
qed

text \<open>
  What holds of \<open>do_search\<close> on every file. With an empty query (\<open>search_len = 0\<close>) it
  returns no hits and leaves the file handle as it was: nothing is sought or read. With
  an open file the hit list is strictly ascending, has at most 50 entries, and each hit
  \<open>k\<close> is below \<open>verse_count\<close> and is the ordinal of a line that the search pass counted,
  \<open>search_lines ! k\<close>: a piece without line break of the file's bytes (CR dropped), which
  contains the (non-empty) query as a substring after ASCII case folding of both. Whether
  that line is the record of verse \<open>k\<close> is another matter.
\<close>

lemma do_search_hits:
  "(search_len app = 0 \<longrightarrow> hits (do_search app) = [] \<and> vfile (do_search app) = vfile app) \<and>
   (vfile app = Some f \<longrightarrow>
      sorted_wrt (<) (hits (do_search app)) \<and>
      length (hits (do_search app)) \<le> MAX_SEARCH_RESULTS \<and> MAX_SEARCH_RESULTS = 50 \<and>
      (\<forall>k \<in> set (hits (do_search app)).
         k < verse_count app \<and> k < length (search_lines (content f)) \<and>
         LF \<notin> set (search_lines (content f) ! k) \<and>
         sublist (search_lines (content f) ! k) (filter (\<lambda>c. c \<noteq> CR) (content f)) \<and>
         cstr (search_buf app) \<noteq> [] \<and>
         sublist (map lower (cstr (search_buf app))) (map lower (search_lines (content f) ! k))))"
proof (intro conjI impI)
  assume "search_len app = 0"
  then show "hits (do_search app) = []" "vfile (do_search app) = vfile app"
    by (simp_all add: do_search_def)
next
  show "MAX_SEARCH_RESULTS = 50" by (simp add: MAX_SEARCH_RESULTS_def)
next
  assume f: "vfile app = Some f"
  obtain hs r where run: "do_search_loop (verse_count app) (search_buf app) (content f) 0 [] = (hs, r)"
    by (cases "do_search_loop (verse_count app) (search_buf app) (content f) 0 []") auto
  have h: "hits (do_search app) = (if search_len app = 0 then [] else hs)"
    using f run by (simp add: do_search_def)
  from do_search_loop_hits [OF run]
  have hs: "sorted_wrt (<) hs" "length hs \<le> MAX_SEARCH_RESULTS"
    "\<forall>k \<in> set hs. k < verse_count app \<and> k < length (search_lines (content f)) \<and>
        icontains (search_lines (content f) ! k) (search_buf app)"
    by (auto simp: MAX_SEARCH_RESULTS_def)
  show "sorted_wrt (<) (hits (do_search app))" using h hs(1) by simp
  show "length (hits (do_search app)) \<le> MAX_SEARCH_RESULTS" using h hs(2) by simp
  show "\<forall>k \<in> set (hits (do_search app)).
         k < verse_count app \<and> k < length (search_lines (content f)) \<and>
         LF \<notin> set (search_lines (content f) ! k) \<and>
         sublist (search_lines (content f) ! k) (filter (\<lambda>c. c \<noteq> CR) (content f)) \<and>
         cstr (search_buf app) \<noteq> [] \<and>
         sublist (map lower (cstr (search_buf app))) (map lower (search_lines (content f) ! k))"
  proof
    fix k assume "k \<in> set (hits (do_search app))"
    with h have "k \<in> set hs" by (auto split: if_splits)
    with hs(3) have k: "k < verse_count app" "k < length (search_lines (content f))"
      "icontains (search_lines (content f) ! k) (search_buf app)" by auto
    from k(3) have "cstr (search_buf app) \<noteq> []"
      "sublist (map lower (cstr (search_buf app))) (map lower (cstr (search_lines (content f) ! k)))"
      by (simp_all add: icontains_iff)
    moreover from k(2) have "search_lines (content f) ! k \<in> set (search_lines (content f))"
      by simp
    from search_lines_piece [OF this]
    have "LF \<notin> set (search_lines (content f) ! k)"
      "sublist (search_lines (content f) ! k) (filter (\<lambda>c. c \<noteq> CR) (content f))"
      by simp_all
    ultimately show "k < verse_count app \<and> k < length (search_lines (content f)) \<and>
         LF \<notin> set (search_lines (content f) ! k) \<and>
         sublist (search_lines (content f) ! k) (filter (\<lambda>c. c \<noteq> CR) (content f)) \<and>
         cstr (search_buf app) \<noteq> [] \<and>
         sublist (map lower (cstr (search_buf app))) (map lower (search_lines (content f) ! k))"
      using k sublist_cstr by blast
  qed
qed

text \<open>
  C3 on two files. The record of the verse id that \<open>do_search\<close> returns need not contain
  the query: the pass counts its own lines, and they are not the lines that
  \<open>build_index\<close> numbered. In the file with a title line the query \<open>god\<close> is in verse 0
  (\<open>John 3:16\<close>); the hit list is \<open>[1]\<close>, and verse 1 is \<open>John 11:35|John|Jesus wept.\<close>.
  In the file with a blank line every other line is a record; the pass reads the byte
  after the blank line, which is all of the record \<open>|\<close>, so it counts three lines where
  the index has four verses: the hit for \<open>d\<close> is \<open>[2]\<close>, and verse 2 is \<open>c|x\<close>.
\<close>

theorem search_hit_lacks_query:
  "index (snd (build_index (with_file header_file))) =
     [\<lparr>offset = 6, ref = ''John 3:16''\<rparr>, \<lparr>offset = 48, ref = ''John 11:35''\<rparr>] \<and>
   hits (do_search ((snd (build_index (with_file header_file)))
           \<lparr>search_buf := ''god'', search_len := 3\<rparr>)) = [1] \<and>
   index_lines header_file ! 1 = ''John 11:35|John|Jesus wept.'' \<and>
   \<not> icontains (index_lines header_file ! 1) ''god'' \<and>
   icontains (index_lines header_file ! 0) ''god'' \<and>
   verse_count (snd (build_index (with_file blank_file))) = 4 \<and>
   index_lines blank_file = [''a|1'', ''|'', ''c|x'', ''d|y''] \<and>
   search_lines blank_file = [''a|1'', ''|x'', ''d|y''] \<and>
   hits (do_search ((snd (build_index (with_file blank_file)))
           \<lparr>search_buf := ''d'', search_len := 1\<rparr>)) = [2] \<and>
   \<not> icontains (index_lines blank_file ! 2) ''d''"
  by code_simp

section \<open>Word wrap is idempotent\<close>

lemma find_brk_le: "find_brk t p c \<le> c"
  by (induction c) auto

lemma find_brk_space: "find_brk t p c = k \<Longrightarrow> 0 < k \<Longrightarrow> t ! (p + k) = SP"
  by (induction c) (auto split: if_splits)

lemma find_brk_last: "find_brk t p c = k \<Longrightarrow> k < j \<Longrightarrow> j \<le> c \<Longrightarrow> t ! (p + j) \<noteq> SP"
proof (induction c)
  case 0
  then show ?case by simp
next
  case (Suc c)
  show ?case
  proof (cases "t ! (p + Suc c) = SP")
    case True
    with Suc.prems show ?thesis by simp
  next
    case False
    show ?thesis
    proof (cases "j = Suc c")
      case True
      with False show ?thesis by simp
    next
      case False
      with Suc.prems \<open>t ! (p + Suc c) \<noteq> SP\<close> Suc.IH show ?thesis by simp
    qed
  qed
qed

lemma find_brk_eqI:
  "k \<le> c \<Longrightarrow> (0 < k \<longrightarrow> t ! (p + k) = SP) \<Longrightarrow> (\<forall>j. k < j \<and> j \<le> c \<longrightarrow> t ! (p + j) \<noteq> SP) \<Longrightarrow>
   find_brk t p c = k"
proof (induction c)
  case 0
  then show ?case by simp
next
  case (Suc c)
  show ?case
  proof (cases "k = Suc c")
    case True
    with Suc.prems show ?thesis by simp
  next
    case False
    with Suc.prems have kc: "k \<le> c" by simp
    then have "k < Suc c \<and> Suc c \<le> Suc c" by simp
    with Suc.prems(3) have ns: "t ! (p + Suc c) \<noteq> SP" by blast
    from Suc.prems(3) have "\<forall>j. k < j \<and> j \<le> c \<longrightarrow> t ! (p + j) \<noteq> SP" by auto
    from Suc.IH [OF kc Suc.prems(2) this] ns show ?thesis by simp
  qed
qed

lemma find_brk_drop:
  "p + c < length text \<Longrightarrow> find_brk text p c = find_brk (drop p text) 0 c"
  by (induction c) (auto simp: nth_drop)

lemma brk_at_bounds: "1 \<le> c \<Longrightarrow> 1 \<le> brk_at c t \<and> brk_at c t \<le> c"
  using find_brk_le [of t 0 c] by (auto simp: brk_at_def Let_def)

lemma word_wrap_loop_wrap_from:
  "pos \<le> length tx \<Longrightarrow> 1 \<le> cols \<Longrightarrow>
   word_wrap_loop tx cols pos ls = ls @ wrap_from (WRAP_MAX_LINES - length ls) cols (drop pos tx)"
proof (induction tx cols pos ls rule: word_wrap_loop.induct)
  case (1 tx cols pos ls)
  show ?case
  proof (cases "pos < length tx \<and> length ls < WRAP_MAX_LINES")
    case False
    then have "word_wrap_loop tx cols pos ls = ls" by (subst word_wrap_loop.simps) auto
    moreover from False "1.prems" have "wrap_from (WRAP_MAX_LINES - length ls) cols (drop pos tx) = []"
      by (cases "WRAP_MAX_LINES - length ls") auto
    ultimately show ?thesis by simp
  next
    case True
    note guard = True
    then obtain n where n: "WRAP_MAX_LINES - length ls = Suc n"
      by (cases "WRAP_MAX_LINES - length ls") auto
    from guard have ne: "drop pos tx \<noteq> []" by simp
    show ?thesis
    proof (cases "length tx - pos \<le> cols")
      case True
      with guard have "word_wrap_loop tx cols pos ls = ls @ [take (length tx - pos) (drop pos tx)]"
        by (subst word_wrap_loop.simps) (simp add: Let_def)
      with True n ne show ?thesis by simp
    next
      case False
      define brk where "brk = brk_at cols (drop pos tx)"
      define pos'' where "pos'' = (if pos + brk < length tx \<and> tx ! (pos + brk) = SP then pos + brk + 1 else pos + brk)"
      from False have room: "pos + cols < length tx" by simp
      have fb: "find_brk tx pos cols = find_brk (drop pos tx) 0 cols"
        by (rule find_brk_drop [OF room])
      have b: "1 \<le> brk" "brk \<le> cols" using brk_at_bounds [OF "1.prems"(2)] by (simp_all add: brk_def)
      have step: "word_wrap_loop tx cols pos ls =
                  word_wrap_loop tx cols pos'' (ls @ [take brk (drop pos tx)])"
        using guard False
        by (subst word_wrap_loop.simps) (simp add: Let_def fb brk_def brk_at_def pos''_def)
      have le: "pos'' \<le> length tx" using room b by (auto simp: pos''_def)
      have IH: "word_wrap_loop tx cols pos'' (ls @ [take brk (drop pos tx)]) =
            (ls @ [take brk (drop pos tx)]) @
              wrap_from (WRAP_MAX_LINES - length (ls @ [take brk (drop pos tx)])) cols (drop pos'' tx)"
        using guard False
        by (intro "1.IH" [OF guard refl False refl _ refl refl _ le "1.prems"(2)])
           (simp_all add: fb brk_def brk_at_def pos''_def Let_def)
      have n': "WRAP_MAX_LINES - length (ls @ [take brk (drop pos tx)]) = n" using n by simp
      have sk: "drop pos'' tx = skip_space (drop brk (drop pos tx))"
      proof (cases "pos + brk < length tx")
        case True
        then have "drop (pos + brk) tx = tx ! (pos + brk) # drop (Suc (pos + brk)) tx"
          by (simp add: Cons_nth_drop_Suc)
        then show ?thesis using True by (simp add: skip_space_def pos''_def add.commute)
      next
        case False
        then show ?thesis by (simp add: skip_space_def pos''_def)
      qed
      from False have long: "\<not> length (drop pos tx) \<le> cols" by simp
      show ?thesis unfolding step IH n' sk using n ne long by (simp add: brk_def)
    qed
  qed
qed

lemma rejoin_Cons: "ls \<noteq> [] \<Longrightarrow> rejoin (l # ls) = l @ SP # rejoin ls"
  by (cases ls) auto

lemma rejoin_prefix: "\<exists>r. rejoin (l # ls) = l @ r"
  by (cases ls) auto

lemma wrap_from_head:
  assumes "1 \<le> c" "1 \<le> m" "m \<le> c" "m \<le> length s" "\<forall>i<m. s ! i \<noteq> SP"
  shows "\<exists>l ls. wrap_from (Suc n) c s = l # ls \<and> m \<le> length l \<and> l = take (length l) s"
proof (cases "length s \<le> c")
  case True
  with assms show ?thesis by auto
next
  case False
  from assms have ne: "s \<noteq> []" by auto
  have "m \<le> brk_at c s"
  proof (cases "find_brk s 0 c = 0")
    case True
    with assms(3) show ?thesis by (simp add: brk_at_def)
  next
    case False
    then have pos: "0 < find_brk s 0 c" by simp
    from find_brk_space [OF refl pos] have "s ! find_brk s 0 c = SP" by simp
    with assms(5) have "\<not> find_brk s 0 c < m" by auto
    with False show ?thesis by (simp add: brk_at_def)
  qed
  moreover have "brk_at c s \<le> length s" using brk_at_bounds [OF assms(1), of s] False by simp
  ultimately show ?thesis using False ne by (simp add: min_def)
qed

lemma rewrap_step:
  assumes c: "1 \<le> c" and long: "c < length t"
    and L: "wrap_from n c (skip_space (drop (brk_at c t) t)) = L'" and ne: "L' \<noteq> []"
  defines "u \<equiv> take (brk_at c t) t @ SP # rejoin L'"
  shows "c < length u" and "brk_at c u = brk_at c t"
    and "skip_space (drop (brk_at c t) u) = rejoin L'"
proof -
  let ?b = "brk_at c t"
  from brk_at_bounds [OF c, of t] have b: "1 \<le> ?b" "?b \<le> c" by simp_all
  with long have lb: "length (take ?b t) = ?b" by simp
  have ub: "u ! ?b = SP" using lb by (simp add: u_def nth_append)
  show "skip_space (drop ?b u) = rejoin L'"
    using lb by (simp add: u_def skip_space_def)
  show "c < length u" "brk_at c u = ?b"
  proof -
    have "c < length u \<and> brk_at c u = ?b"
    proof (cases "?b = c")
      case True
      have "find_brk u 0 c = c"
        using ub True by (intro find_brk_eqI) auto
      with b True lb show ?thesis by (simp add: brk_at_def u_def)
    next
      case False
      with b have lt: "?b < c" by simp
      have fb: "find_brk t 0 c = ?b"
        using lt by (auto simp: brk_at_def Let_def split: if_splits)
      from b(1) have bpos: "0 < ?b" by simp
      from find_brk_space [OF fb bpos] have tb: "t ! ?b = SP" by simp
      have after: "\<And>j. ?b < j \<Longrightarrow> j \<le> c \<Longrightarrow> t ! j \<noteq> SP"
        using find_brk_last [OF fb] by simp
      from long b have "drop ?b t = t ! ?b # drop (Suc ?b) t"
        by (simp add: Cons_nth_drop_Suc)
      with tb have sk: "skip_space (drop ?b t) = drop (Suc ?b) t" by (simp add: skip_space_def)
      let ?m = "c - ?b"
      let ?s = "drop (Suc ?b) t"
      have m: "1 \<le> ?m" "?m \<le> c" "?m \<le> length ?s" using lt long by simp_all
      have clean: "\<forall>i<?m. ?s ! i \<noteq> SP"
      proof (intro allI impI)
        fix i assume "i < ?m"
        then have "?b < Suc ?b + i" "Suc ?b + i \<le> c" by simp_all
        from after [OF this] long lt show "?s ! i \<noteq> SP" by simp
      qed
      from ne L obtain n' where n': "n = Suc n'" by (cases n) auto
      from wrap_from_head [OF c m clean, of n'] L sk n'
      obtain l ls where l: "L' = l # ls" "?m \<le> length l" "l = take (length l) ?s" by auto
      from rejoin_prefix [of l ls] l(1) obtain r where r: "rejoin L' = l @ r" by auto
      have low: "\<And>i. i < ?m \<Longrightarrow> rejoin L' ! i \<noteq> SP"
      proof -
        fix i assume i: "i < ?m"
        with l(2) have il: "i < length l" by simp
        then have "rejoin L' ! i = l ! i" by (simp add: r nth_append)
        also from l(3) il have "l ! i = ?s ! i" by (metis nth_take)
        finally show "rejoin L' ! i \<noteq> SP" using clean i by simp
      qed
      have len: "?m \<le> length (rejoin L')" using l(2) by (simp add: r)
      have "find_brk u 0 c = ?b"
      proof (intro find_brk_eqI)
        show "?b \<le> c" by (rule b(2))
        show "0 < ?b \<longrightarrow> u ! (0 + ?b) = SP" using ub by simp
        show "\<forall>j. ?b < j \<and> j \<le> c \<longrightarrow> u ! (0 + j) \<noteq> SP"
        proof (intro allI impI)
          fix j assume j: "?b < j \<and> j \<le> c"
          then have "j - ?b - 1 < ?m" by arith
          from low [OF this] have "rejoin L' ! (j - ?b - 1) \<noteq> SP" .
          moreover have "u ! j = rejoin L' ! (j - ?b - 1)"
          proof -
            from j obtain d where d: "j - ?b = Suc d" by (cases "j - ?b") auto
            then have "j - ?b - 1 = d" by simp
            moreover from j lb d have "u ! j = rejoin L' ! d"
              by (simp add: u_def nth_append)
            ultimately show ?thesis by simp
          qed
          ultimately show "u ! (0 + j) \<noteq> SP" by simp
        qed
      qed
      moreover have "c < length u" using len lb lt by (simp add: u_def)
      ultimately show ?thesis using bpos by (simp add: brk_at_def)
    qed
    then show "c < length u" "brk_at c u = ?b" by simp_all
  qed
qed

lemma wrap_from_rejoin:
  "1 \<le> c \<Longrightarrow> wrap_from n c (rejoin (wrap_from n c t)) = wrap_from n c t"
proof (induction n arbitrary: t)
  case 0
  then show ?case by simp
next
  case (Suc n)
  show ?case
  proof (cases "t = []")
    case True
    then show ?thesis by simp
  next
    case False
    note ne = False
    show ?thesis
    proof (cases "length t \<le> c")
      case True
      with ne show ?thesis by simp
    next
      case False
      then have long: "c < length t" by simp
      let ?b = "brk_at c t"
      let ?l1 = "take ?b t"
      define L' where "L' = wrap_from n c (skip_space (drop ?b t))"
      have W: "wrap_from (Suc n) c t = ?l1 # L'" using ne False by (simp add: L'_def)
      from brk_at_bounds [OF Suc.prems, of t] have b: "1 \<le> ?b" "?b \<le> c" by simp_all
      with long have lb: "length ?l1 = ?b" by simp
      show ?thesis
      proof (cases "L' = []")
        case True
        with W lb b show ?thesis by (cases ?l1) auto
      next
        case False
        let ?u = "?l1 @ SP # rejoin L'"
        note R = rewrap_step [OF Suc.prems long L'_def [symmetric] False]
        have ru: "rejoin (?l1 # L') = ?u" by (rule rejoin_Cons [OF False])
        have "wrap_from (Suc n) c ?u = take (brk_at c ?u) ?u # wrap_from n c (skip_space (drop (brk_at c ?u) ?u))"
          using R(1) by simp
        also have "\<dots> = ?l1 # wrap_from n c (rejoin L')"
          using R(2,3) lb by simp
        also have "wrap_from n c (rejoin L') = L'"
          unfolding L'_def by (rule Suc.IH [OF Suc.prems])
        finally show ?thesis unfolding W ru .
      qed
    qed
  qed
qed

lemma set_skip_space: "set (skip_space s) \<subseteq> set s"
  by (auto simp: skip_space_def split: list.splits if_splits)

lemma wrap_from_chars: "l \<in> set (wrap_from n c t) \<Longrightarrow> set l \<subseteq> set t"
proof (induction n arbitrary: t)
  case 0
  then show ?case by simp
next
  case (Suc n)
  show ?case
  proof (cases "t = [] \<or> length t \<le> c")
    case True
    with Suc.prems show ?thesis by (auto split: if_splits)
  next
    case False
    with Suc.prems have "l = take (brk_at c t) t \<or> l \<in> set (wrap_from n c (skip_space (drop (brk_at c t) t)))"
      by auto
    then show ?thesis
    proof
      assume "l = take (brk_at c t) t"
      then show ?thesis by (auto dest: in_set_takeD)
    next
      assume "l \<in> set (wrap_from n c (skip_space (drop (brk_at c t) t)))"
      from Suc.IH [OF this] set_skip_space [of "drop (brk_at c t) t"]
      show ?thesis by (auto dest: in_set_dropD)
    qed
  qed
qed

lemma rejoin_chars: "set (rejoin ls) \<subseteq> insert SP (\<Union>l \<in> set ls. set l)"
  by (induction ls rule: rejoin.induct) auto

lemma cstr_no_NUL: "NUL \<notin> set (cstr s)"
  by (auto simp: cstr_def dest: set_takeWhileD)

lemma cstr_id: "NUL \<notin> set s \<Longrightarrow> cstr s = s"
  by (auto simp: cstr_def takeWhile_eq_all_conv)

lemma lines_word_wrap:
  "lines (word_wrap tx cols) =
     wrap_from WRAP_MAX_LINES (if cols < 1 then 1 else if cols > WRAP_LINE_LEN then WRAP_LINE_LEN else cols)
       (cstr tx)"
  using word_wrap_loop_wrap_from [of 0 "cstr tx" _ "[]"]
  by (auto simp: word_wrap_def Let_def WRAP_LINE_LEN_def)

text \<open>
  C5. \<open>word_wrap\<close> is a function of the text and the column width alone (the state it
  writes is cleared first). For every text and every width, joining the emitted lines
  with single spaces and wrapping the result at the same width gives the same state:
  the same lines in the same order, scroll position 0.
\<close>

theorem word_wrap_idempotent:
  "word_wrap (rejoin (lines (word_wrap tx cols))) cols = word_wrap tx cols"
proof -
  let ?c = "if cols < 1 then 1 else if cols > WRAP_LINE_LEN then WRAP_LINE_LEN else cols"
  let ?L = "wrap_from WRAP_MAX_LINES ?c (cstr tx)"
  have c: "1 \<le> ?c" by (simp add: WRAP_LINE_LEN_def)
  have "NUL \<notin> set (rejoin ?L)"
  proof
    assume "NUL \<in> set (rejoin ?L)"
    with rejoin_chars [of ?L] obtain l where "l \<in> set ?L" "NUL \<in> set l" by auto
    with wrap_from_chars [of l WRAP_MAX_LINES ?c "cstr tx"] cstr_no_NUL [of tx] show False by auto
  qed
  then have "cstr (rejoin ?L) = rejoin ?L" by (rule cstr_id)
  then have "lines (word_wrap (rejoin ?L) cols) = wrap_from WRAP_MAX_LINES ?c (rejoin ?L)"
    by (simp only: lines_word_wrap)
  also have "\<dots> = ?L" by (rule wrap_from_rejoin [OF c])
  finally have "lines (word_wrap (rejoin (lines (word_wrap tx cols))) cols) =
                lines (word_wrap tx cols)"
    by (simp only: lines_word_wrap)
  moreover have "\<And>x y. scroll (word_wrap x y) = 0" by (simp add: word_wrap_def Let_def)
  ultimately show ?thesis by (intro WrapState.equality) simp_all
qed

section \<open>Saving and loading settings\<close>

lemma digit_char:
  assumes "d < 10"
  shows "isdigit (char_of (of_char (CHR ''0'') + d :: nat))"
    and "(of_char (char_of (of_char (CHR ''0'') + d :: nat)) :: nat) - of_char (CHR ''0'') = d"
  using assms by (simp_all add: isdigit_def)

lemma isdigit_not_special:
  "isdigit c \<Longrightarrow> \<not> isspace c \<and> c \<noteq> NUL \<and> c \<noteq> CR \<and> c \<noteq> LF \<and> c \<noteq> CHR ''-'' \<and> c \<noteq> CHR ''+'' \<and> c \<noteq> CHR ''=''"
  by (auto simp: isdigit_def isspace_def)

lemma show_dec_digits: "c \<in> set (show_dec n) \<Longrightarrow> isdigit c"
proof (induction n rule: show_dec.induct)
  case (1 n)
  show ?case
  proof (cases "n < 10")
    case True
    with "1.prems" digit_char(1) [of n] show ?thesis by (simp add: show_dec.simps [of n])
  next
    case False
    with "1.prems" "1.IH" digit_char(1) [of "n mod 10"] show ?thesis
      by (auto simp: show_dec.simps [of n])
  qed
qed

lemma show_dec_nonempty: "show_dec n \<noteq> []"
  by (subst show_dec.simps) simp

lemma show_dec_length: "n < 10 ^ k \<Longrightarrow> 0 < k \<Longrightarrow> length (show_dec n) \<le> k"
proof (induction n arbitrary: k rule: show_dec.induct)
  case (1 n)
  show ?case
  proof (cases "n < 10")
    case True
    with "1.prems" show ?thesis by (simp add: show_dec.simps [of n])
  next
    case False
    with "1.prems" obtain k' where k': "k = Suc k'" "0 < k'"
      by (cases k; cases "k - 1") auto
    with "1.prems" have "n div 10 < 10 ^ k'" by (simp add: less_mult_imp_div_less mult.commute)
    from "1.IH" [OF False this k'(2)] False k' show ?thesis by (simp add: show_dec.simps [of n])
  qed
qed

lemma digits_val_show_dec:
  "digits_val acc (show_dec n @ r) = digits_val (acc * 10 ^ length (show_dec n) + n) r"
proof (induction n arbitrary: acc r rule: show_dec.induct)
  case (1 n)
  show ?case
  proof (cases "n < 10")
    case True
    with digit_char [of n] show ?thesis by (simp add: show_dec.simps [of n])
  next
    case False
    let ?d = "char_of (of_char (CHR ''0'') + n mod 10 :: nat)"
    have sd: "show_dec n = show_dec (n div 10) @ [?d]" using False by (simp add: show_dec.simps [of n])
    have "digits_val acc (show_dec n @ r) = digits_val acc (show_dec (n div 10) @ (?d # r))"
      by (simp add: sd)
    also have "\<dots> = digits_val (acc * 10 ^ length (show_dec (n div 10)) + n div 10) (?d # r)"
      by (rule "1.IH" [OF False])
    also have "\<dots> = digits_val ((acc * 10 ^ length (show_dec (n div 10)) + n div 10) * 10 + n mod 10) r"
      using digit_char [of "n mod 10"] by simp
    also have "(acc * 10 ^ length (show_dec (n div 10)) + n div 10) * 10 + n mod 10 =
               acc * 10 ^ length (show_dec n) + n"
      by (simp add: sd algebra_simps)
    finally show ?thesis .
  qed
qed

lemma digits_val_show_dec0: "digits_val 0 (show_dec n) = n"
  using digits_val_show_dec [of 0 n "[]"] by simp

lemma cstr_show_dec: "cstr (show_dec n) = show_dec n"
  using show_dec_digits [of _ n] isdigit_not_special
  by (auto simp: cstr_def takeWhile_eq_all_conv)

lemma dropWhile_show_dec: "dropWhile isspace (show_dec n) = show_dec n"
proof (cases "show_dec n")
  case Nil
  then show ?thesis by simp
next
  case (Cons c cs)
  then have "c \<in> set (show_dec n)" by simp
  from show_dec_digits [OF this] isdigit_not_special have "\<not> isspace c" by blast
  with Cons show ?thesis by simp
qed

lemma atoi_show_dec: "n < 2 ^ 31 \<Longrightarrow> atoi (show_dec n) = int n"
proof -
  assume n: "n < 2 ^ 31"
  obtain c cs where cc: "show_dec n = c # cs" using show_dec_nonempty [of n] by (cases "show_dec n") auto
  then have "c \<in> set (show_dec n)" by simp
  from show_dec_digits [OF this] isdigit_not_special have c: "c \<noteq> CHR ''-''" "c \<noteq> CHR ''+''" by blast+
  have dv: "digits_val 0 (c # cs) = n" using digits_val_show_dec0 [of n] cc by simp
  have "atoi (show_dec n) =
     (case show_dec n of [] \<Rightarrow> 0
      | c # cs \<Rightarrow>
          if c = CHR ''-'' then max (- (2 ^ 31)) (- int (digits_val 0 cs))
          else if c = CHR ''+'' then min (2 ^ 31 - 1) (int (digits_val 0 cs))
          else min (2 ^ 31 - 1) (int (digits_val 0 (c # cs))))"
    by (simp only: atoi_def cstr_show_dec dropWhile_show_dec)
  also have "\<dots> = min (2 ^ 31 - 1) (int (digits_val 0 (c # cs)))"
    using c by (simp only: cc list.case if_False)
  also have "\<dots> = int n" using n by (simp only: dv) simp
  finally show ?thesis .
qed

lemma strtoul_show_dec: "n < 2 ^ 32 \<Longrightarrow> strtoul (show_dec n) = n"
proof -
  assume n: "n < 2 ^ 32"
  obtain c cs where cc: "show_dec n = c # cs" using show_dec_nonempty [of n] by (cases "show_dec n") auto
  then have "c \<in> set (show_dec n)" by simp
  from show_dec_digits [OF this] isdigit_not_special have c: "c \<noteq> CHR ''-''" "c \<noteq> CHR ''+''" by blast+
  have dv: "digits_val 0 (c # cs) = n" using digits_val_show_dec0 [of n] cc by simp
  have "strtoul (show_dec n) =
     (case show_dec n of [] \<Rightarrow> 0
      | c # cs \<Rightarrow>
          (let neg = (c = CHR ''-'');
               v = digits_val 0 (if c = CHR ''-'' \<or> c = CHR ''+'' then cs else c # cs)
           in if v > 2 ^ 32 - 1 then 2 ^ 32 - 1
              else if neg then (2 ^ 32 - v) mod 2 ^ 32 else v))"
    by (simp only: strtoul_def cstr_show_dec dropWhile_show_dec)
  also have "\<dots> = (if n > 2 ^ 32 - 1 then 2 ^ 32 - 1 else n)"
    using c by (simp only: cc list.case Let_def if_False dv simp_thms)
  also have "\<dots> = n" using n by simp
  finally show ?thesis .
qed

lemma settings_read_line_append:
  "CR \<notin> set l \<Longrightarrow> LF \<notin> set l \<Longrightarrow> length buf + length l \<le> 95 \<Longrightarrow>
   settings_read_line buf (l @ fs) = settings_read_line (buf @ l) fs"
proof (induction l arbitrary: buf)
  case Nil
  then show ?case by simp
next
  case (Cons c l)
  from Cons.prems have c: "c \<noteq> CR" "c \<noteq> LF" by auto
  with Cons.prems have "settings_read_line buf ((c # l) @ fs) = settings_read_line (buf @ [c]) (l @ fs)"
    by simp
  also from Cons.prems have "\<dots> = settings_read_line ((buf @ [c]) @ l) fs"
    by (intro Cons.IH) auto
  finally show ?case by simp
qed

lemma settings_read_line_whole:
  "CR \<notin> set l \<Longrightarrow> LF \<notin> set l \<Longrightarrow> length l < 95 \<Longrightarrow>
   settings_read_line [] (l @ LF # rest) = (l, False, rest)"
  using settings_read_line_append [of l "[]" "LF # rest"] by simp

lemma settings_load_loop_line:
  assumes "CR \<notin> set l" "LF \<notin> set l" "length l < 95" "l \<noteq> []"
  shows "settings_load_loop (l @ LF # rest) st = settings_load_loop rest (settings_apply l st)"
  using settings_read_line_whole [OF assms(1-3), of rest] assms(4)
  by (subst settings_load_loop.simps) simp

lemma settings_load_loop_end: "settings_load_loop [] st = st"
  by (subst settings_load_loop.simps) simp

lemma takeWhile_notin:
  "c \<notin> set a \<Longrightarrow> takeWhile (\<lambda>x. x \<noteq> c) (a @ b) = a @ takeWhile (\<lambda>x. x \<noteq> c) b"
  by (induction a) auto

lemma cstr_append: "NUL \<notin> set a \<Longrightarrow> cstr (a @ b) = a @ cstr b"
  by (simp add: cstr_def takeWhile_notin)

lemma cstr_cstr: "cstr (cstr s) = cstr s"
  by (simp add: cstr_def takeWhile_idem)

lemma atoi_cstr: "atoi (cstr s) = atoi s"
  by (simp add: atoi_def cstr_cstr)

lemma strtoul_cstr: "strtoul (cstr s) = strtoul s"
  by (simp add: strtoul_def cstr_cstr)

lemma key_split:
  assumes "NUL \<notin> set key" "CHR ''='' \<notin> set key"
  shows "strchr (key @ CHR ''='' # v) (CHR ''='') = Some (length key)"
    and "take (length key) (cstr (key @ CHR ''='' # v)) = key"
    and "drop (Suc (length key)) (cstr (key @ CHR ''='' # v)) = cstr v"
proof -
  have c: "cstr (key @ CHR ''='' # v) = key @ CHR ''='' # cstr v"
    using assms(1) cstr_append [of "key @ [CHR ''='']" v] by simp
  show "strchr (key @ CHR ''='' # v) (CHR ''='') = Some (length key)"
    using assms(2) by (simp add: strchr_def c takeWhile_notin)
  show "take (length key) (cstr (key @ CHR ''='' # v)) = key" by (simp add: c)
  show "drop (Suc (length key)) (cstr (key @ CHR ''='' # v)) = cstr v" by (simp add: c)
qed

lemma settings_apply_key:
  assumes "NUL \<notin> set key" "CHR ''='' \<notin> set key"
  shows "settings_apply (key @ CHR ''='' # v) app =
     (if key = ''verse_file'' then
        (case find_first (\<lambda>vf. basename (path vf) = cstr v) (vfiles app) of
           Some i \<Rightarrow> app\<lparr>vfile_sel := i\<rparr> | None \<Rightarrow> app)
      else if key = ''font_size'' then
        (if atoi v \<ge> 0 \<and> atoi v < int FONT_COUNT then app\<lparr>font_choice := nat (atoi v)\<rparr> else app)
      else if key = ''api_trans'' then
        (case find_first (\<lambda>t. cstr v = fst t) API_TRANSLATIONS of
           Some i \<Rightarrow> app\<lparr>api_trans_sel := i\<rparr> | None \<Rightarrow> app)
      else if key = ''api_book'' then
        (if atoi v \<ge> 0 \<and> atoi v < int BIBLE_BOOKS_COUNT then app\<lparr>api_book_sel := nat (atoi v)\<rparr> else app)
      else if key = ''api_chapter'' then
        (if atoi v \<ge> 1 \<and> atoi v \<le> 150 then app\<lparr>api_chapter_sel := nat (atoi v)\<rparr> else app)
      else if key = ''api_verse'' then
        (if atoi v \<ge> 1 \<and> atoi v \<le> 176 then app\<lparr>api_verse_sel := nat (atoi v)\<rparr> else app)
      else if key = ''daily_idx'' then
        (if atoi v \<ge> 0 \<and> atoi v < int MAX_VERSES then app\<lparr>daily_verse_idx := nat (atoi v)\<rparr> else app)
      else if key = ''daily_day'' then app\<lparr>daily_verse_day := strtoul v\<rparr>
      else app)"
  unfolding settings_apply_def key_split [OF assms] option.case Let_def atoi_cstr strtoul_cstr
  by (rule refl)

lemma apply_verse_file:
  "settings_apply (''verse_file='' @ v) app =
     (case find_first (\<lambda>vf. basename (path vf) = cstr v) (vfiles app) of
        Some i \<Rightarrow> app\<lparr>vfile_sel := i\<rparr> | None \<Rightarrow> app)"
  using settings_apply_key [of "''verse_file''" v app] by simp

lemma apply_font_size:
  "settings_apply (''font_size='' @ v) app =
     (if atoi v \<ge> 0 \<and> atoi v < int FONT_COUNT then app\<lparr>font_choice := nat (atoi v)\<rparr> else app)"
  using settings_apply_key [of "''font_size''" v app] by simp

lemma apply_api_trans:
  "settings_apply (''api_trans='' @ v) app =
     (case find_first (\<lambda>t. cstr v = fst t) API_TRANSLATIONS of
        Some i \<Rightarrow> app\<lparr>api_trans_sel := i\<rparr> | None \<Rightarrow> app)"
  using settings_apply_key [of "''api_trans''" v app] by simp

lemma apply_api_book:
  "settings_apply (''api_book='' @ v) app =
     (if atoi v \<ge> 0 \<and> atoi v < int BIBLE_BOOKS_COUNT then app\<lparr>api_book_sel := nat (atoi v)\<rparr> else app)"
  using settings_apply_key [of "''api_book''" v app] by simp

lemma apply_api_chapter:
  "settings_apply (''api_chapter='' @ v) app =
     (if atoi v \<ge> 1 \<and> atoi v \<le> 150 then app\<lparr>api_chapter_sel := nat (atoi v)\<rparr> else app)"
  using settings_apply_key [of "''api_chapter''" v app] by simp

lemma apply_api_verse:
  "settings_apply (''api_verse='' @ v) app =
     (if atoi v \<ge> 1 \<and> atoi v \<le> 176 then app\<lparr>api_verse_sel := nat (atoi v)\<rparr> else app)"
  using settings_apply_key [of "''api_verse''" v app] by simp

lemma apply_daily_idx:
  "settings_apply (''daily_idx='' @ v) app =
     (if atoi v \<ge> 0 \<and> atoi v < int MAX_VERSES then app\<lparr>daily_verse_idx := nat (atoi v)\<rparr> else app)"
  using settings_apply_key [of "''daily_idx''" v app] by simp

lemma apply_daily_day:
  "settings_apply (''daily_day='' @ v) app = app\<lparr>daily_verse_day := strtoul v\<rparr>"
  using settings_apply_key [of "''daily_day''" v app] by simp

lemma find_first_SomeI:
  "i < length xs \<Longrightarrow> P (xs ! i) \<Longrightarrow> (\<forall>j<i. \<not> P (xs ! j)) \<Longrightarrow> find_first P xs = Some i"
proof (induction xs arbitrary: i)
  case Nil
  then show ?case by simp
next
  case (Cons x xs)
  show ?case
  proof (cases i)
    case 0
    with Cons.prems show ?thesis by simp
  next
    case (Suc k)
    with Cons.prems have "\<not> P x" by auto
    moreover from Suc Cons.prems have "find_first P xs = Some k"
      by (intro Cons.IH) auto
    ultimately show ?thesis using Suc by simp
  qed
qed

lemma find_first_distinct:
  assumes "i < length xs" "distinct (map f xs)"
  shows "find_first (\<lambda>x. f x = f (xs ! i)) xs = Some i"
proof (rule find_first_SomeI [OF assms(1)])
  show "f (xs ! i) = f (xs ! i)" by simp
  show "\<forall>j<i. f (xs ! j) \<noteq> f (xs ! i)"
  proof (intro allI impI)
    fix j assume j: "j < i"
    with assms(1) have l: "j < length (map f xs)" "i < length (map f xs)" and ne: "j \<noteq> i"
      by simp_all
    from nth_eq_iff_index_eq [OF assms(2) l] ne have "map f xs ! j \<noteq> map f xs ! i" by simp
    with j assms(1) show "f (xs ! j) \<noteq> f (xs ! i)" by simp
  qed
qed

lemma translations_all:
  "list_all (\<lambda>i. find_first (\<lambda>t. fst (API_TRANSLATIONS ! i) = fst t) API_TRANSLATIONS = Some i \<and>
      length (fst (API_TRANSLATIONS ! i)) \<le> 6 \<and>
      CR \<notin> set (fst (API_TRANSLATIONS ! i)) \<and> LF \<notin> set (fst (API_TRANSLATIONS ! i)) \<and>
      NUL \<notin> set (fst (API_TRANSLATIONS ! i))) [0..<9]"
  by code_simp

lemma translation_code:
  assumes "i < API_TRANS_COUNT"
  shows "find_first (\<lambda>t. fst (API_TRANSLATIONS ! i) = fst t) API_TRANSLATIONS = Some i"
    and "length (fst (API_TRANSLATIONS ! i)) \<le> 6"
    and "CR \<notin> set (fst (API_TRANSLATIONS ! i))" and "LF \<notin> set (fst (API_TRANSLATIONS ! i))"
    and "NUL \<notin> set (fst (API_TRANSLATIONS ! i))"
proof -
  from assms have "i \<in> set [0..<9]" by (simp add: API_TRANS_COUNT_def)
  with translations_all [unfolded list_all_iff]
  have "find_first (\<lambda>t. fst (API_TRANSLATIONS ! i) = fst t) API_TRANSLATIONS = Some i \<and>
      length (fst (API_TRANSLATIONS ! i)) \<le> 6 \<and>
      CR \<notin> set (fst (API_TRANSLATIONS ! i)) \<and> LF \<notin> set (fst (API_TRANSLATIONS ! i)) \<and>
      NUL \<notin> set (fst (API_TRANSLATIONS ! i))" by blast
  then show "find_first (\<lambda>t. fst (API_TRANSLATIONS ! i) = fst t) API_TRANSLATIONS = Some i"
    and "length (fst (API_TRANSLATIONS ! i)) \<le> 6"
    and "CR \<notin> set (fst (API_TRANSLATIONS ! i))" and "LF \<notin> set (fst (API_TRANSLATIONS ! i))"
    and "NUL \<notin> set (fst (API_TRANSLATIONS ! i))" by simp_all
qed

lemma show_dec_line:
  assumes "n < 2 ^ 32"
  shows "length (show_dec n) \<le> 10" and "CR \<notin> set (show_dec n)" and "LF \<notin> set (show_dec n)"
proof -
  from assms have "n < 10 ^ 10" by simp
  from show_dec_length [OF this] show "length (show_dec n) \<le> 10" by simp
  show "CR \<notin> set (show_dec n)" "LF \<notin> set (show_dec n)"
    using show_dec_digits [of _ n] isdigit_not_special by blast+
qed

lemma load_num_line:
  assumes "n < 2 ^ 32" "CR \<notin> set key" "LF \<notin> set key" "length key \<le> 20"
  shows "settings_load_loop ((key @ show_dec n) @ LF # rest) st =
         settings_load_loop rest (settings_apply (key @ show_dec n) st)"
  using show_dec_line [OF assms(1)] assms(2-4) show_dec_nonempty [of n]
  by (intro settings_load_loop_line) auto

lemma settings_load_saved:
  assumes v: "settings_valid app" and f: "vfiles fresh = vfiles app"
  shows "settings_load_loop (concat (settings_lines app)) fresh =
         fresh\<lparr>vfile_sel := vfile_sel app, font_choice := font_choice app,
               api_trans_sel := api_trans_sel app, api_book_sel := api_book_sel app,
               api_chapter_sel := api_chapter_sel app, api_verse_sel := api_verse_sel app,
               daily_verse_idx := daily_verse_idx app, daily_verse_day := daily_verse_day app\<rparr>"
proof -
  let ?fn = "basename (path (vfiles app ! vfile_sel app))"
  let ?tc = "fst (API_TRANSLATIONS ! api_trans_sel app)"
  from v have sel: "vfile_sel app < length (vfiles app)"
    and dist: "distinct (map (\<lambda>vf. basename (path vf)) (vfiles app))"
    and fn: "length ?fn \<le> 83" "CR \<notin> set ?fn" "LF \<notin> set ?fn" "NUL \<notin> set ?fn"
    and font: "font_choice app < 5" and tr: "api_trans_sel app < API_TRANS_COUNT"
    and book: "api_book_sel app < 66"
    and ch: "1 \<le> api_chapter_sel app" "api_chapter_sel app \<le> 150"
    and vs: "1 \<le> api_verse_sel app" "api_verse_sel app \<le> 176"
    and di: "daily_verse_idx app < 600" and dd: "daily_verse_day app < 2 ^ 32"
    by (simp_all add: settings_valid_def FONT_COUNT_def BIBLE_BOOKS_COUNT_def MAX_VERSES_def)
  note tc = translation_code [OF tr]
  define s1 where "s1 = fresh\<lparr>vfile_sel := vfile_sel app\<rparr>"
  define s2 where "s2 = s1\<lparr>font_choice := font_choice app\<rparr>"
  define s3 where "s3 = s2\<lparr>api_trans_sel := api_trans_sel app\<rparr>"
  define s4 where "s4 = s3\<lparr>api_book_sel := api_book_sel app\<rparr>"
  define s5 where "s5 = s4\<lparr>api_chapter_sel := api_chapter_sel app\<rparr>"
  define s6 where "s6 = s5\<lparr>api_verse_sel := api_verse_sel app\<rparr>"
  define s7 where "s7 = s6\<lparr>daily_verse_idx := daily_verse_idx app\<rparr>"
  define s8 where "s8 = s7\<lparr>daily_verse_day := daily_verse_day app\<rparr>"
  have a1: "settings_apply (''verse_file='' @ ?fn) fresh = s1"
    unfolding apply_verse_file using find_first_distinct [OF sel dist] cstr_id [OF fn(4)]
    by (simp add: f s1_def)
  have a2: "settings_apply (''font_size='' @ show_dec (font_choice app)) s1 = s2"
    unfolding apply_font_size using font atoi_show_dec [of "font_choice app"]
    by (simp add: s2_def FONT_COUNT_def)
  have a3: "settings_apply (''api_trans='' @ ?tc) s2 = s3"
    unfolding apply_api_trans using tc(1) cstr_id [OF tc(5)] by (simp add: s3_def)
  have a4: "settings_apply (''api_book='' @ show_dec (api_book_sel app)) s3 = s4"
    unfolding apply_api_book using book atoi_show_dec [of "api_book_sel app"]
    by (simp add: s4_def BIBLE_BOOKS_COUNT_def)
  have a5: "settings_apply (''api_chapter='' @ show_dec (api_chapter_sel app)) s4 = s5"
    unfolding apply_api_chapter using ch atoi_show_dec [of "api_chapter_sel app"]
    by (simp add: s5_def)
  have a6: "settings_apply (''api_verse='' @ show_dec (api_verse_sel app)) s5 = s6"
    unfolding apply_api_verse using vs atoi_show_dec [of "api_verse_sel app"]
    by (simp add: s6_def)
  have a7: "settings_apply (''daily_idx='' @ show_dec (daily_verse_idx app)) s6 = s7"
    unfolding apply_daily_idx using di atoi_show_dec [of "daily_verse_idx app"]
    by (simp add: s7_def MAX_VERSES_def)
  have a8: "settings_apply (''daily_day='' @ show_dec (daily_verse_day app)) s7 = s8"
    unfolding apply_daily_day using strtoul_show_dec [OF dd] by (simp add: s8_def)
  have c: "concat (settings_lines app) =
     (''verse_file='' @ ?fn) @ LF #
     (''font_size='' @ show_dec (font_choice app)) @ LF #
     (''api_trans='' @ ?tc) @ LF #
     (''api_book='' @ show_dec (api_book_sel app)) @ LF #
     (''api_chapter='' @ show_dec (api_chapter_sel app)) @ LF #
     (''api_verse='' @ show_dec (api_verse_sel app)) @ LF #
     (''daily_idx='' @ show_dec (daily_verse_idx app)) @ LF #
     (''daily_day='' @ show_dec (daily_verse_day app)) @ LF # []"
    by (simp add: settings_lines_def)
  have l1: "\<And>rest st. settings_load_loop ((''verse_file='' @ ?fn) @ LF # rest) st =
              settings_load_loop rest (settings_apply (''verse_file='' @ ?fn) st)"
    using fn by (intro settings_load_loop_line) auto
  have l3: "\<And>rest st. settings_load_loop ((''api_trans='' @ ?tc) @ LF # rest) st =
              settings_load_loop rest (settings_apply (''api_trans='' @ ?tc) st)"
    using tc by (intro settings_load_loop_line) auto
  have n: "font_choice app < 2 ^ 32" "api_book_sel app < 2 ^ 32" "api_chapter_sel app < 2 ^ 32"
    "api_verse_sel app < 2 ^ 32" "daily_verse_idx app < 2 ^ 32"
    using font book ch vs di by simp_all
  have "settings_load_loop (concat (settings_lines app)) fresh = settings_load_loop [] s8"
    unfolding c
    apply (subst l1, subst a1)
    apply (subst load_num_line [OF n(1)], simp, simp, simp, subst a2)
    apply (subst l3, subst a3)
    apply (subst load_num_line [OF n(2)], simp, simp, simp, subst a4)
    apply (subst load_num_line [OF n(3)], simp, simp, simp, subst a5)
    apply (subst load_num_line [OF n(4)], simp, simp, simp, subst a6)
    apply (subst load_num_line [OF n(5)], simp, simp, simp, subst a7)
    apply (subst load_num_line [OF dd], simp, simp, simp, subst a8)
    apply (rule refl)
    done
  then show ?thesis
    by (simp add: settings_load_loop_end s8_def s7_def s6_def s5_def s4_def s3_def s2_def s1_def)
qed

lemma settings_save_valid:
  assumes v: "settings_valid app" and w: "storage_writable app"
  shows "settings_save app = Some (app\<lparr>settings_txt := Some (concat (settings_lines app))\<rparr>)"
proof -
  let ?fn = "basename (path (vfiles app ! vfile_sel app))"
  from v have fn: "length ?fn \<le> 83"
    and font: "font_choice app < 5" and tr: "api_trans_sel app < API_TRANS_COUNT"
    and book: "api_book_sel app < 66"
    and ch: "api_chapter_sel app \<le> 150"
    and vs: "api_verse_sel app \<le> 176"
    and di: "daily_verse_idx app < 600" and dd: "daily_verse_day app < 2 ^ 32"
    by (simp_all add: settings_valid_def FONT_COUNT_def BIBLE_BOOKS_COUNT_def MAX_VERSES_def)
  have n: "font_choice app < 2 ^ 32" "api_book_sel app < 2 ^ 32" "api_chapter_sel app < 2 ^ 32"
    "api_verse_sel app < 2 ^ 32" "daily_verse_idx app < 2 ^ 32"
    using font book ch vs di by simp_all
  have fits: "list_all (\<lambda>l. length l < 96) (settings_lines app)"
    using fn translation_code(2) [OF tr] show_dec_line(1) [OF n(1)] show_dec_line(1) [OF n(2)]
      show_dec_line(1) [OF n(3)] show_dec_line(1) [OF n(4)] show_dec_line(1) [OF n(5)]
      show_dec_line(1) [OF dd]
    by (simp add: settings_lines_def)
  then have le: "list_all (\<lambda>l. length l \<le> 96) (settings_lines app)"
    by (simp add: list_all_iff less_imp_le)
  from fits have "map snprintf_written (settings_lines app) = settings_lines app"
    by (simp add: list_all_iff snprintf_written_def map_idI)
  with w le show ?thesis by (simp add: settings_save_def)
qed

lemma unchanged_update:
  "(st :: App)\<lparr>vfile_sel := vfile_sel st\<rparr> = st" "st\<lparr>font_choice := font_choice st\<rparr> = st"
  "st\<lparr>api_trans_sel := api_trans_sel st\<rparr> = st" "st\<lparr>api_book_sel := api_book_sel st\<rparr> = st"
  "st\<lparr>api_chapter_sel := api_chapter_sel st\<rparr> = st" "st\<lparr>api_verse_sel := api_verse_sel st\<rparr> = st"
  "st\<lparr>daily_verse_idx := daily_verse_idx st\<rparr> = st"
  by simp_all

lemma find_first_absent: "(\<forall>x \<in> set xs. \<not> P x) \<Longrightarrow> find_first P xs = None"
  by (induction xs) auto

lemma settings_ignored:
  "\<not> (0 \<le> atoi v \<and> atoi v < 5) \<longrightarrow> settings_apply (''font_size='' @ v) st = st"
  "\<not> (0 \<le> atoi v \<and> atoi v < 66) \<longrightarrow> settings_apply (''api_book='' @ v) st = st"
  "\<not> (1 \<le> atoi v \<and> atoi v \<le> 150) \<longrightarrow> settings_apply (''api_chapter='' @ v) st = st"
  "\<not> (1 \<le> atoi v \<and> atoi v \<le> 176) \<longrightarrow> settings_apply (''api_verse='' @ v) st = st"
  "\<not> (0 \<le> atoi v \<and> atoi v < 600) \<longrightarrow> settings_apply (''daily_idx='' @ v) st = st"
  "(\<forall>vf \<in> set (vfiles st). basename (path vf) \<noteq> cstr v) \<longrightarrow>
     settings_apply (''verse_file='' @ v) st = st"
  "(\<forall>t \<in> set API_TRANSLATIONS. fst t \<noteq> cstr v) \<longrightarrow>
     settings_apply (''api_trans='' @ v) st = st"
proof -
  show "\<not> (0 \<le> atoi v \<and> atoi v < 5) \<longrightarrow> settings_apply (''font_size='' @ v) st = st"
    unfolding apply_font_size by (simp add: FONT_COUNT_def)
  show "\<not> (0 \<le> atoi v \<and> atoi v < 66) \<longrightarrow> settings_apply (''api_book='' @ v) st = st"
    unfolding apply_api_book by (simp add: BIBLE_BOOKS_COUNT_def)
  show "\<not> (1 \<le> atoi v \<and> atoi v \<le> 150) \<longrightarrow> settings_apply (''api_chapter='' @ v) st = st"
    unfolding apply_api_chapter by simp
  show "\<not> (1 \<le> atoi v \<and> atoi v \<le> 176) \<longrightarrow> settings_apply (''api_verse='' @ v) st = st"
    unfolding apply_api_verse by simp
  show "\<not> (0 \<le> atoi v \<and> atoi v < 600) \<longrightarrow> settings_apply (''daily_idx='' @ v) st = st"
    unfolding apply_daily_idx by (simp add: MAX_VERSES_def)
  show "(\<forall>vf \<in> set (vfiles st). basename (path vf) \<noteq> cstr v) \<longrightarrow>
     settings_apply (''verse_file='' @ v) st = st"
    unfolding apply_verse_file by (simp add: find_first_absent)
  show "(\<forall>t \<in> set API_TRANSLATIONS. fst t \<noteq> cstr v) \<longrightarrow>
     settings_apply (''api_trans='' @ v) st = st"
  proof (intro impI)
    assume "\<forall>t \<in> set API_TRANSLATIONS. fst t \<noteq> cstr v"
    then have "\<forall>t \<in> set API_TRANSLATIONS. \<not> cstr v = fst t" by auto
    from find_first_absent [OF this] show "settings_apply (''api_trans='' @ v) st = st"
      unfolding apply_api_trans by simp
  qed
qed

lemma settings_one_field:
  "\<exists>x. settings_apply (''verse_file='' @ v) st = st\<lparr>vfile_sel := x\<rparr>"
  "\<exists>x. settings_apply (''font_size='' @ v) st = st\<lparr>font_choice := x\<rparr>"
  "\<exists>x. settings_apply (''api_trans='' @ v) st = st\<lparr>api_trans_sel := x\<rparr>"
  "\<exists>x. settings_apply (''api_book='' @ v) st = st\<lparr>api_book_sel := x\<rparr>"
  "\<exists>x. settings_apply (''api_chapter='' @ v) st = st\<lparr>api_chapter_sel := x\<rparr>"
  "\<exists>x. settings_apply (''api_verse='' @ v) st = st\<lparr>api_verse_sel := x\<rparr>"
  "\<exists>x. settings_apply (''daily_idx='' @ v) st = st\<lparr>daily_verse_idx := x\<rparr>"
  "\<exists>x. settings_apply (''daily_day='' @ v) st = st\<lparr>daily_verse_day := x\<rparr>"
proof -
  show "\<exists>x. settings_apply (''verse_file='' @ v) st = st\<lparr>vfile_sel := x\<rparr>"
    unfolding apply_verse_file
    by (cases "find_first (\<lambda>vf. basename (path vf) = cstr v) (vfiles st)")
       (auto intro: exI [of _ "vfile_sel st"])
  show "\<exists>x. settings_apply (''font_size='' @ v) st = st\<lparr>font_choice := x\<rparr>"
    unfolding apply_font_size by (auto intro: exI [of _ "font_choice st"])
  show "\<exists>x. settings_apply (''api_trans='' @ v) st = st\<lparr>api_trans_sel := x\<rparr>"
    unfolding apply_api_trans
    by (cases "find_first (\<lambda>t. cstr v = fst t) API_TRANSLATIONS")
       (auto intro: exI [of _ "api_trans_sel st"])
  show "\<exists>x. settings_apply (''api_book='' @ v) st = st\<lparr>api_book_sel := x\<rparr>"
    unfolding apply_api_book by (auto intro: exI [of _ "api_book_sel st"])
  show "\<exists>x. settings_apply (''api_chapter='' @ v) st = st\<lparr>api_chapter_sel := x\<rparr>"
    unfolding apply_api_chapter by (auto intro: exI [of _ "api_chapter_sel st"])
  show "\<exists>x. settings_apply (''api_verse='' @ v) st = st\<lparr>api_verse_sel := x\<rparr>"
    unfolding apply_api_verse by (auto intro: exI [of _ "api_verse_sel st"])
  show "\<exists>x. settings_apply (''daily_idx='' @ v) st = st\<lparr>daily_verse_idx := x\<rparr>"
    unfolding apply_daily_idx by (auto intro: exI [of _ "daily_verse_idx st"])
  show "\<exists>x. settings_apply (''daily_day='' @ v) st = st\<lparr>daily_verse_day := x\<rparr>"
    unfolding apply_daily_day by blast
qed

lemma settings_load_after_save:
  assumes "settings_valid app" and "storage_writable app"
  shows "\<exists>saved. settings_save app = Some saved \<and>
           (\<forall>fresh :: App. vfiles fresh = vfiles app \<and> settings_txt fresh = settings_txt saved \<longrightarrow>
              vfile_sel (settings_load fresh) = vfile_sel app \<and>
              font_choice (settings_load fresh) = font_choice app \<and>
              api_trans_sel (settings_load fresh) = api_trans_sel app \<and>
              api_book_sel (settings_load fresh) = api_book_sel app \<and>
              api_chapter_sel (settings_load fresh) = api_chapter_sel app \<and>
              api_verse_sel (settings_load fresh) = api_verse_sel app \<and>
              daily_verse_idx (settings_load fresh) = daily_verse_idx app \<and>
              daily_verse_day (settings_load fresh) = daily_verse_day app)"
proof (intro exI conjI allI impI)
  show "settings_save app = Some (app\<lparr>settings_txt := Some (concat (settings_lines app))\<rparr>)"
    by (rule settings_save_valid [OF assms])
next
  fix fresh :: App
  assume a: "vfiles fresh = vfiles app \<and>
    settings_txt fresh = settings_txt (app\<lparr>settings_txt := Some (concat (settings_lines app))\<rparr>)"
  then have "settings_load fresh = settings_load_loop (concat (settings_lines app)) fresh"
    by (simp add: settings_load_def)
  with a settings_load_saved [OF assms(1), of fresh]
  have l: "settings_load fresh =
         fresh\<lparr>vfile_sel := vfile_sel app, font_choice := font_choice app,
               api_trans_sel := api_trans_sel app, api_book_sel := api_book_sel app,
               api_chapter_sel := api_chapter_sel app, api_verse_sel := api_verse_sel app,
               daily_verse_idx := daily_verse_idx app, daily_verse_day := daily_verse_day app\<rparr>"
    by simp
  show "vfile_sel (settings_load fresh) = vfile_sel app" by (simp add: l)
  show "font_choice (settings_load fresh) = font_choice app" by (simp add: l)
  show "api_trans_sel (settings_load fresh) = api_trans_sel app" by (simp add: l)
  show "api_book_sel (settings_load fresh) = api_book_sel app" by (simp add: l)
  show "api_chapter_sel (settings_load fresh) = api_chapter_sel app" by (simp add: l)
  show "api_verse_sel (settings_load fresh) = api_verse_sel app" by (simp add: l)
  show "daily_verse_idx (settings_load fresh) = daily_verse_idx app" by (simp add: l)
  show "daily_verse_day (settings_load fresh) = daily_verse_day app" by (simp add: l)
qed

lemma settings_load_by_line:
  "CR \<notin> set l \<and> LF \<notin> set l \<and> l \<noteq> [] \<and> length l < 95 \<longrightarrow>
   settings_load_loop (l @ LF # rest) st = settings_load_loop rest (settings_apply l st)"
  using settings_load_loop_line [of l rest st] by blast

text \<open>
  C7 as it is stated fails for the key \<open>daily_day\<close>, which \<open>settings_load\<close> stores as
  \<open>strtoul\<close> reads it, without a range check: a value beyond 32 bits is not ignored but
  replaces the default 0 by \<open>ULONG_MAX\<close>.
\<close>

theorem settings_daily_day_unchecked:
  "daily_verse_day (settings_load (app0\<lparr>settings_txt := Some (''daily_day=4294967296'' @ [LF])\<rparr>)) =
     4294967295 \<and>
   daily_verse_day app0 = 0"
  by (simp add: settings_load_def settings_load_loop.simps settings_apply_def strchr_def cstr_def
      strtoul_def isspace_def isdigit_def app0_def)

text \<open>
  C7, as the code has it. For a state as above, when the settings file can be written:
  \<open>settings_save\<close> succeeds, and \<open>settings_load\<close> of what it wrote, into any state with
  the same verse files, gives back the slot of the file name, the font index, the
  translation, the picker's book, chapter and verse, the daily verse index and the day
  counter. On load each line is applied on its own. A \<open>font_size\<close>, \<open>api_book\<close>,
  \<open>api_chapter\<close>, \<open>api_verse\<close> or \<open>daily_idx\<close> whose number, as \<open>atoi\<close> reads it, is
  outside its range, a \<open>verse_file\<close> that names no known file and an \<open>api_trans\<close> that
  is no known code leave the state as it is; and a line changes no field but the one
  of its key.
\<close>

theorem settings_roundtrip:
  assumes "settings_valid app" and "storage_writable app"
  shows
   "(\<exists>saved. settings_save app = Some saved \<and>
       (\<forall>fresh :: App. vfiles fresh = vfiles app \<and> settings_txt fresh = settings_txt saved \<longrightarrow>
          vfile_sel (settings_load fresh) = vfile_sel app \<and>
          font_choice (settings_load fresh) = font_choice app \<and>
          api_trans_sel (settings_load fresh) = api_trans_sel app \<and>
          api_book_sel (settings_load fresh) = api_book_sel app \<and>
          api_chapter_sel (settings_load fresh) = api_chapter_sel app \<and>
          api_verse_sel (settings_load fresh) = api_verse_sel app \<and>
          daily_verse_idx (settings_load fresh) = daily_verse_idx app \<and>
          daily_verse_day (settings_load fresh) = daily_verse_day app)) \<and>
    (CR \<notin> set l \<and> LF \<notin> set l \<and> l \<noteq> [] \<and> length l < 95 \<longrightarrow>
       settings_load_loop (l @ LF # rest) st = settings_load_loop rest (settings_apply l st)) \<and>
    (\<not> (0 \<le> atoi v \<and> atoi v < 5) \<longrightarrow> settings_apply (''font_size='' @ v) st = st) \<and>
    (\<not> (0 \<le> atoi v \<and> atoi v < 66) \<longrightarrow> settings_apply (''api_book='' @ v) st = st) \<and>
    (\<not> (1 \<le> atoi v \<and> atoi v \<le> 150) \<longrightarrow> settings_apply (''api_chapter='' @ v) st = st) \<and>
    (\<not> (1 \<le> atoi v \<and> atoi v \<le> 176) \<longrightarrow> settings_apply (''api_verse='' @ v) st = st) \<and>
    (\<not> (0 \<le> atoi v \<and> atoi v < 600) \<longrightarrow> settings_apply (''daily_idx='' @ v) st = st) \<and>
    ((\<forall>vf \<in> set (vfiles st). basename (path vf) \<noteq> cstr v) \<longrightarrow>
       settings_apply (''verse_file='' @ v) st = st) \<and>
    ((\<forall>t \<in> set API_TRANSLATIONS. fst t \<noteq> cstr v) \<longrightarrow>
       settings_apply (''api_trans='' @ v) st = st) \<and>
    (\<exists>x. settings_apply (''verse_file='' @ v) st = st\<lparr>vfile_sel := x\<rparr>) \<and>
    (\<exists>x. settings_apply (''font_size='' @ v) st = st\<lparr>font_choice := x\<rparr>) \<and>
    (\<exists>x. settings_apply (''api_trans='' @ v) st = st\<lparr>api_trans_sel := x\<rparr>) \<and>
    (\<exists>x. settings_apply (''api_book='' @ v) st = st\<lparr>api_book_sel := x\<rparr>) \<and>
    (\<exists>x. settings_apply (''api_chapter='' @ v) st = st\<lparr>api_chapter_sel := x\<rparr>) \<and>
    (\<exists>x. settings_apply (''api_verse='' @ v) st = st\<lparr>api_verse_sel := x\<rparr>) \<and>
    (\<exists>x. settings_apply (''daily_idx='' @ v) st = st\<lparr>daily_verse_idx := x\<rparr>) \<and>
    (\<exists>x. settings_apply (''daily_day='' @ v) st = st\<lparr>daily_verse_day := x\<rparr>)"
proof -
  note A = settings_load_after_save [OF assms]
  note B = settings_load_by_line [where l = l and rest = rest and st = st]
  note C = settings_ignored [where v = v and st = st]
  note D = settings_one_field [where v = v and st = st]
  show ?thesis by (rule A B C D | rule conjI)+
qed

theorem settings_roundtrip_witness:
  "settings_valid settings_ex \<and> storage_writable settings_ex \<and>
   vfile_sel (settings_load (app0\<lparr>vfiles := vfiles settings_ex,
       settings_txt := settings_txt (the (settings_save settings_ex))\<rparr>)) = 1 \<and>
   api_chapter_sel (settings_load (app0\<lparr>vfiles := vfiles settings_ex,
       settings_txt := settings_txt (the (settings_save settings_ex))\<rparr>)) = 3 \<and>
   daily_verse_day (settings_load (app0\<lparr>vfiles := vfiles settings_ex,
       settings_txt := settings_txt (the (settings_save settings_ex))\<rparr>)) = 4000000000 \<and>
   settings_apply ''font_size=7'' app0 = app0 \<and>
   settings_apply ''api_chapter=0'' app0 = app0"
proof -
  have v: "settings_valid settings_ex"
    by (simp add: settings_valid_def settings_ex_def app0_def basename_def FONT_COUNT_def
        API_TRANS_COUNT_def BIBLE_BOOKS_COUNT_def MAX_VERSES_def)
  have w: "storage_writable settings_ex" by (simp add: settings_ex_def app0_def)
  have f: "vfile_sel settings_ex = 1" "api_chapter_sel settings_ex = 3"
    "daily_verse_day settings_ex = 4000000000"
    by (simp_all add: settings_ex_def)
  have a: "atoi ''7'' = 7" "atoi ''0'' = 0"
    by (simp_all add: atoi_def cstr_def isspace_def isdigit_def)
  note T7 = settings_roundtrip [OF v w, where st = app0 and v = "''7''" and l = "''x''" and rest = "[]"]
  note T0 = settings_roundtrip [OF v w, where st = app0 and v = "''0''" and l = "''x''" and rest = "[]"]
  let ?fresh = "\<lambda>saved. app0\<lparr>vfiles := vfiles settings_ex, settings_txt := settings_txt saved\<rparr>"
  from T7 [THEN conjunct1] obtain saved where sv:
    "settings_save settings_ex = Some saved \<and>
       (\<forall>fresh :: App. vfiles fresh = vfiles settings_ex \<and> settings_txt fresh = settings_txt saved \<longrightarrow>
          vfile_sel (settings_load fresh) = vfile_sel settings_ex \<and>
          font_choice (settings_load fresh) = font_choice settings_ex \<and>
          api_trans_sel (settings_load fresh) = api_trans_sel settings_ex \<and>
          api_book_sel (settings_load fresh) = api_book_sel settings_ex \<and>
          api_chapter_sel (settings_load fresh) = api_chapter_sel settings_ex \<and>
          api_verse_sel (settings_load fresh) = api_verse_sel settings_ex \<and>
          daily_verse_idx (settings_load fresh) = daily_verse_idx settings_ex \<and>
          daily_verse_day (settings_load fresh) = daily_verse_day settings_ex)" ..
  from sv have s: "the (settings_save settings_ex) = saved" by simp
  have p: "vfiles (?fresh saved) = vfiles settings_ex \<and> settings_txt (?fresh saved) = settings_txt saved"
    by simp
  from sv [THEN conjunct2, rule_format, OF p] f
  have x: "vfile_sel (settings_load (?fresh saved)) = 1"
    "api_chapter_sel (settings_load (?fresh saved)) = 3"
    "daily_verse_day (settings_load (?fresh saved)) = 4000000000"
    by simp_all
  from T7 [THEN conjunct2, THEN conjunct2, THEN conjunct1] a
  have y: "settings_apply ''font_size=7'' app0 = app0" by simp
  from T0 [THEN conjunct2, THEN conjunct2, THEN conjunct2, THEN conjunct2, THEN conjunct1] a
  have z: "settings_apply ''api_chapter=0'' app0 = app0" by simp
  show ?thesis unfolding s using v w x y z by simp
qed

end
